theory Spec2Isabelle
  imports
    Main
    "HOL-Library.Char_ord"
    "HOL-Library.List_Lexorder"
    "HOL-Library.Multiset"
begin

section \<open>Data model of wordcount.c\<close>

text \<open>
  A \<^verbatim>\<open>wc_Word\<close> is a slot of the table: the C string held in its \<^verbatim>\<open>char word[128]\<close>
  and the counter \<^verbatim>\<open>int freq\<close>. A \<^verbatim>\<open>wc_Context\<close> is the array \<^verbatim>\<open>words\<close> with the number
  \<^verbatim>\<open>len\<close> of slots in use. The array is a list of all its slots, those at index \<^verbatim>\<open>len\<close>
  and beyond holding whatever the memory held; its bound is the length of the list,
  which is 128 for the context declared in \<^verbatim>\<open>main\<close>.
\<close>

record wc_Word =
  word :: string
  freq :: int

record wc_Context =
  words :: "wc_Word list"
  len :: nat

text \<open>
  Undefined behaviour of the C program is a value of the model: a write past the
  table, past the \<^verbatim>\<open>word\<close> member of a slot, past the reader's buffer, past the thread
  arrays of \<^verbatim>\<open>main\<close>, and the overflow of a signed counter.
\<close>

datatype error =
    Table_overflow
  | Word_overflow
  | Buffer_overflow
  | Freq_overflow
  | Thread_overflow

definition INT_MAX :: int where
  "INT_MAX = 2147483647"

definition WC_IN_WORD :: int where
  "WC_IN_WORD = 1"

definition WC_OUT_OF_WORD :: int where
  "WC_OUT_OF_WORD = 0"

definition EOF :: int where
  "EOF = - 1"

text \<open>The slots in use: \<^verbatim>\<open>words[0 .. len - 1]\<close>.\<close>

definition entries :: "wc_Context \<Rightarrow> wc_Word list" where
  "entries ctxt = take (len ctxt) (words ctxt)"

section \<open>The C library, as far as the program uses it\<close>

text \<open>
  \<^verbatim>\<open>strcmp\<close> compares two strings byte by byte as \<^verbatim>\<open>unsigned char\<close>; the standard fixes
  the sign of the result only, which is what the model returns (-1, 0 or 1).
\<close>

fun strcmp :: "string \<Rightarrow> string \<Rightarrow> int" where
  "strcmp [] [] = 0"
| "strcmp [] (y # ys) = - 1"
| "strcmp (x # xs) [] = 1"
| "strcmp (x # xs) (y # ys) =
     (if x = y then strcmp xs ys
      else if (of_char x :: nat) < of_char y then - 1 else 1)"

text \<open>
  \<^verbatim>\<open>qsort(base, nmemb, size, compar)\<close> orders the first \<^verbatim>\<open>nmemb\<close> elements of the array
  by \<^verbatim>\<open>compar\<close>. The standard leaves the algorithm open; the model inserts one
  element after the other. Lemma \<open>qsort_unique\<close> below shows that on the tables of this
  program every ordered rearrangement is the same list, so the choice does not matter.
\<close>

fun qsort_place :: "('a \<Rightarrow> 'a \<Rightarrow> int) \<Rightarrow> 'a \<Rightarrow> 'a list \<Rightarrow> 'a list" where
  "qsort_place compar a [] = [a]"
| "qsort_place compar a (b # bs) =
     (if compar a b \<le> 0 then a # b # bs else b # qsort_place compar a bs)"

definition qsort :: "'a list \<Rightarrow> nat \<Rightarrow> ('a \<Rightarrow> 'a \<Rightarrow> int) \<Rightarrow> 'a list" where
  "qsort base nmemb compar =
     foldr (qsort_place compar) (take nmemb base) [] @ drop nmemb base"

text \<open>
  \<^verbatim>\<open>isalpha\<close> and \<^verbatim>\<open>tolower\<close> in the "C" locale (the program never calls
  \<^verbatim>\<open>setlocale\<close>), on the value of an \<^verbatim>\<open>unsigned char\<close>.
\<close>

definition isalpha :: "int \<Rightarrow> bool" where
  "isalpha x \<longleftrightarrow> (65 \<le> x \<and> x \<le> 90) \<or> (97 \<le> x \<and> x \<le> 122)"

definition tolower :: "int \<Rightarrow> int" where
  "tolower x = (if 65 \<le> x \<and> x \<le> 90 then x + 32 else x)"

text \<open>
  A \<^verbatim>\<open>char\<close> is a byte. The cast \<^verbatim>\<open>(unsigned char) c\<close> reads it as 0 .. 255; the
  promotion of a plain \<^verbatim>\<open>char\<close> to \<^verbatim>\<open>int\<close>, as in \<^verbatim>\<open>c != EOF\<close>, reads it as
  -128 .. 127: plain \<^verbatim>\<open>char\<close> is signed, as on x86. Storing an \<^verbatim>\<open>int\<close> into a
  \<^verbatim>\<open>char\<close> keeps its low eight bits.
\<close>

definition unsigned_char :: "char \<Rightarrow> int" where
  "unsigned_char c = of_char c"

definition int_of_char :: "char \<Rightarrow> int" where
  "int_of_char c = (if (of_char c :: int) < 128 then of_char c else of_char c - 256)"

definition char_of_int :: "int \<Rightarrow> char" where
  "char_of_int x = char_of x"

text \<open>
  \<^verbatim>\<open>getc\<close> on a stream, which is the list of the bytes still to be read: the next byte
  as an \<^verbatim>\<open>unsigned char\<close> converted to \<^verbatim>\<open>int\<close>, or \<^verbatim>\<open>EOF\<close> at the end of the stream.
\<close>

fun getc :: "char list \<Rightarrow> int \<times> char list" where
  "getc [] = (EOF, [])"
| "getc (b # bs) = (unsigned_char b, bs)"

text \<open>The C string held in a character array: the bytes before the first NUL.\<close>

definition c_string :: "char list \<Rightarrow> string" where
  "c_string buf = takeWhile (\<lambda>c. c \<noteq> CHR 0x00) buf"

text \<open>\<^verbatim>\<open>printf("%d")\<close>: the decimal digits, with a minus sign for a negative value.\<close>

definition digit :: "nat \<Rightarrow> char" where
  "digit d = char_of (48 + d)"

function dec_nat :: "nat \<Rightarrow> string" where
  "dec_nat n = (if n < 10 then [digit n] else dec_nat (n div 10) @ [digit (n mod 10)])"
  by pat_completeness auto
termination
  by (relation "measure id") auto

definition printf_d :: "int \<Rightarrow> string" where
  "printf_d x = (if x < 0 then CHR ''-'' # dec_nat (nat (- x)) else dec_nat (nat x))"

section \<open>The frequency table\<close>

text \<open>
  \<^verbatim>\<open>wc_compare_words\<close>: equal counts compare by \<^verbatim>\<open>strcmp\<close>, others by \<^verbatim>\<open>b->freq - a->freq\<close>.
  The difference is taken in the integers; lemma \<open>wc_run_freq_range\<close> keeps the counters of
  the program's tables where it does not overflow.
\<close>

definition wc_compare_words :: "wc_Word \<Rightarrow> wc_Word \<Rightarrow> int" where
  "wc_compare_words a b =
     (if freq a = freq b then strcmp (word a) (word b) else freq b - freq a)"

text \<open>
  The lookup loop of \<^verbatim>\<open>wc_store_word\<close>: \<^verbatim>\<open>found\<close> starts at -1 and is set to every index
  whose word equals \<^verbatim>\<open>buf\<close>, so the last such index wins. A read past the array is
  \<open>Table_overflow\<close>.
\<close>

function wc_lookup :: "wc_Context \<Rightarrow> string \<Rightarrow> nat \<Rightarrow> int \<Rightarrow> error + int" where
  "wc_lookup ctxt buf i found =
     (if i < len ctxt then
        (if i < length (words ctxt) then
           wc_lookup ctxt buf (i + 1)
             (if strcmp (word (words ctxt ! i)) buf = 0 then int i else found)
         else Inl Table_overflow)
      else Inr found)"
  by pat_completeness auto
termination
  by (relation "measure (\<lambda>(ctxt, buf, i, found). len ctxt - i)") auto

text \<open>
  \<^verbatim>\<open>wc_store_word\<close>. A new word goes to \<^verbatim>\<open>words[len]\<close>: \<^verbatim>\<open>strcpy\<close> writes the word and its
  NUL into the 128 bytes of the slot, the counter becomes 1 and \<^verbatim>\<open>len\<close> grows. The
  source checks neither the index \<^verbatim>\<open>len\<close> nor the length of the word. A known word has
  its counter incremented.
\<close>

definition wc_store_word :: "wc_Context \<Rightarrow> string \<Rightarrow> error + wc_Context" where
  "wc_store_word ctxt buf =
     (case wc_lookup ctxt buf 0 (- 1) of
        Inl e \<Rightarrow> Inl e
      | Inr found \<Rightarrow>
          if found = - 1 then
            (if len ctxt < length (words ctxt) then
               (if length buf < 128 then
                  Inr (ctxt\<lparr>words := (words ctxt)[len ctxt := \<lparr>word = buf, freq = 1\<rparr>],
                            len := len ctxt + 1\<rparr>)
                else Inl Word_overflow)
             else Inl Table_overflow)
          else
            (if freq (words ctxt ! nat found) < INT_MAX then
               Inr (ctxt\<lparr>words := (words ctxt)[nat found :=
                      (words ctxt ! nat found)\<lparr>freq := freq (words ctxt ! nat found) + 1\<rparr>]\<rparr>)
             else Inl Freq_overflow))"

text \<open>
  \<^verbatim>\<open>wc_new_word_callback\<close>: between taking and releasing the mutex (both calls return 0
  on the statically initialised mutex \<^verbatim>\<open>mtx\<close>, so that neither \<^verbatim>\<open>exit\<close> is taken), store
  the word and sort the slots in use.
\<close>

definition wc_new_word_callback :: "string \<Rightarrow> wc_Context \<Rightarrow> error + wc_Context" where
  "wc_new_word_callback buf ctxt =
     (case wc_store_word ctxt buf of
        Inl e \<Rightarrow> Inl e
      | Inr ctxt' \<Rightarrow>
          Inr (ctxt'\<lparr>words := qsort (words ctxt') (len ctxt') wc_compare_words\<rparr>))"

text \<open>
  \<^verbatim>\<open>wc_print_words\<close>: the text written to standard output, between taking and releasing
  the mutex as above. The loop prints the slots in use in the order of the array.
\<close>

definition printf_entry :: "wc_Word \<Rightarrow> string" where
  "printf_entry w = word w @ '' - '' @ printf_d (freq w) @ [CHR '' '', CHR 0x0A]"

function wc_print_loop :: "wc_Context \<Rightarrow> nat \<Rightarrow> string \<Rightarrow> error + string" where
  "wc_print_loop ctxt i out =
     (if i < len ctxt then
        (if i < length (words ctxt) then
           wc_print_loop ctxt (i + 1) (out @ printf_entry (words ctxt ! i))
         else Inl Table_overflow)
      else Inr out)"
  by pat_completeness auto
termination
  by (relation "measure (\<lambda>(ctxt, i, out). len ctxt - i)") auto

definition wc_print_words :: "wc_Context \<Rightarrow> error + string" where
  "wc_print_words ctxt =
     (case wc_print_loop ctxt 0 (CHR 0x0A # ''Current word frequency count: '' @ [CHR 0x0A]) of
        Inl e \<Rightarrow> Inl e
      | Inr out \<Rightarrow> Inr (out @ ''----------------------------- '' @ [CHR 0x0A]))"

section \<open>The reader\<close>

text \<open>
  The loop of \<^verbatim>\<open>wc_read_fd\<close>, with its variables \<^verbatim>\<open>state\<close>, \<^verbatim>\<open>i\<close> and \<^verbatim>\<open>buf\<close> passed
  along. The result of \<^verbatim>\<open>getc\<close> is stored into the plain \<^verbatim>\<open>char c\<close> and then compared
  with \<^verbatim>\<open>EOF\<close>. Neither \<^verbatim>\<open>buf[i] = '\0'\<close> nor \<^verbatim>\<open>buf[i++] = ...\<close> checks the index. When the
  loop ends nothing more is done. The function returns the context together with what
  is left of the stream.
\<close>

function wc_read_loop ::
  "(string \<Rightarrow> 'c \<Rightarrow> error + 'c) \<Rightarrow> char list \<Rightarrow> int \<Rightarrow> nat \<Rightarrow> char list \<Rightarrow> 'c
     \<Rightarrow> error + ('c \<times> char list)" where
  "wc_read_loop callback fd state i buf ctxt =
     (let c = char_of_int (fst (getc fd)); fd' = snd (getc fd) in
      if int_of_char c \<noteq> EOF then
        (if \<not> isalpha (unsigned_char c) then
           (if state = WC_IN_WORD then
              (if i < length buf then
                 (case callback (c_string (buf[i := CHR 0x00])) ctxt of
                    Inl e \<Rightarrow> Inl e
                  | Inr ctxt' \<Rightarrow>
                      wc_read_loop callback fd' WC_OUT_OF_WORD 0 (buf[i := CHR 0x00]) ctxt')
               else Inl Buffer_overflow)
            else wc_read_loop callback fd' WC_OUT_OF_WORD 0 buf ctxt)
         else
           (if i < length buf then
              wc_read_loop callback fd'
                (if state = WC_OUT_OF_WORD then WC_IN_WORD else state) (i + 1)
                (buf[i := char_of_int (tolower (unsigned_char c))]) ctxt
            else Inl Buffer_overflow))
      else Inr (ctxt, fd'))"
  by pat_completeness auto

termination
proof (relation "measure (\<lambda>(callback, fd, state, i, buf, ctxt). length fd)")
  have shorter: "length (snd (getc fd)) < length fd"
    if "int_of_char (char_of_int (fst (getc fd))) \<noteq> EOF" for fd
    using that by (cases fd) (simp_all add: int_of_char_def char_of_int_def EOF_def)
  fix callback :: "string \<Rightarrow> 'c \<Rightarrow> error + 'c"
  fix fd buf :: "char list" and state :: int and i :: nat and ctxt ctxt' :: 'c and c fd'
  assume c: "c = char_of_int (fst (getc fd))" and fd': "fd' = snd (getc fd)"
    and ne: "int_of_char c \<noteq> EOF"
  from shorter c fd' ne
  have lt: "length fd' < length fd" by simp
  show "((callback, fd', WC_OUT_OF_WORD, 0, buf[i := CHR 0x00], ctxt'),
         (callback, fd, state, i, buf, ctxt))
        \<in> measure (\<lambda>(callback, fd, state, i, buf, ctxt). length fd)"
    using lt by simp
  show "((callback, fd', WC_OUT_OF_WORD, 0, buf, ctxt), (callback, fd, state, i, buf, ctxt))
        \<in> measure (\<lambda>(callback, fd, state, i, buf, ctxt). length fd)"
    using lt by simp
  show "((callback, fd', if state = WC_OUT_OF_WORD then WC_IN_WORD else state, i + 1,
          buf[i := char_of_int (tolower (unsigned_char c))], ctxt),
         (callback, fd, state, i, buf, ctxt))
        \<in> measure (\<lambda>(callback, fd, state, i, buf, ctxt). length fd)"
    using lt by simp
qed simp

text \<open>\<^verbatim>\<open>wc_read_fd\<close>: the buffer \<^verbatim>\<open>char buf[128]\<close> is a local array.\<close>

definition wc_read_fd ::
  "char list \<Rightarrow> (string \<Rightarrow> 'c \<Rightarrow> error + 'c) \<Rightarrow> 'c \<Rightarrow> error + ('c \<times> char list)" where
  "wc_read_fd fd callback ctxt =
     wc_read_loop callback fd WC_OUT_OF_WORD 0 (replicate 128 (CHR 0x00)) ctxt"

section \<open>The coordinator\<close>

text \<open>
  \<^verbatim>\<open>main\<close> as the sequence of thread operations it performs. The calls that can fail
  (\<^verbatim>\<open>fopen\<close>, \<^verbatim>\<open>pthread_create\<close>, \<^verbatim>\<open>pthread_join\<close>, \<^verbatim>\<open>pthread_cancel\<close>) take their outcome
  from the environment \<open>sys\<close>. The arrays \<^verbatim>\<open>t\<close> and \<^verbatim>\<open>tctxt\<close> have 10 elements; the source
  never compares \<^verbatim>\<open>argc\<close> with that bound.
\<close>

datatype event =
    Create_read nat
  | Create_print
  | Join_read nat
  | Cancel_print
  | Join_print
  | Print_words

datatype outcome = Exit int | Undefined error

definition EXIT_SUCCESS :: int where
  "EXIT_SUCCESS = 0"

definition EXIT_FAILURE :: int where
  "EXIT_FAILURE = 1"

record sys =
  fopen_ok :: "nat \<Rightarrow> bool"
  create_read_ok :: "nat \<Rightarrow> bool"
  create_print_ok :: bool
  join_read_ok :: "nat \<Rightarrow> bool"
  cancel_ok :: bool
  join_print_ok :: bool

text \<open>The loop \<^verbatim>\<open>for (i=1; i<argc; i++)\<close> that opens the named sources and starts their readers.\<close>

function main_open_loop ::
  "sys \<Rightarrow> nat \<Rightarrow> nat \<Rightarrow> event list \<Rightarrow> event list \<times> outcome option" where
  "main_open_loop env argc i tr =
     (if i < argc then
        (if i < 10 then
           (if \<not> fopen_ok env i then (tr, Some (Exit EXIT_FAILURE))
            else if \<not> create_read_ok env i then (tr, Some (Exit EXIT_FAILURE))
            else main_open_loop env argc (i + 1) (tr @ [Create_read i]))
         else (tr, Some (Undefined Thread_overflow)))
      else (tr, None))"
  by pat_completeness auto
termination
  by (relation "measure (\<lambda>(env, argc, i, tr). argc - i)") auto

text \<open>The loop \<^verbatim>\<open>for (i=0; i<argc; i++)\<close> that joins the readers.\<close>

function main_join_loop ::
  "sys \<Rightarrow> nat \<Rightarrow> nat \<Rightarrow> event list \<Rightarrow> event list \<times> outcome option" where
  "main_join_loop env argc i tr =
     (if i < argc then
        (if i < 10 then
           (if \<not> join_read_ok env i then (tr, Some (Exit EXIT_FAILURE))
            else main_join_loop env argc (i + 1) (tr @ [Join_read i]))
         else (tr, Some (Undefined Thread_overflow)))
      else (tr, None))"
  by pat_completeness auto
termination
  by (relation "measure (\<lambda>(env, argc, i, tr). argc - i)") auto

definition main :: "sys \<Rightarrow> nat \<Rightarrow> event list \<times> outcome" where
  "main env argc =
     (if \<not> create_read_ok env 0 then ([], Exit EXIT_FAILURE)
      else
        (case main_open_loop env argc 1 [Create_read 0] of
           (tr, Some out) \<Rightarrow> (tr, out)
         | (tr, None) \<Rightarrow>
             if \<not> create_print_ok env then (tr, Exit EXIT_FAILURE)
             else
               (case main_join_loop env argc 0 (tr @ [Create_print]) of
                  (tr', Some out) \<Rightarrow> (tr', out)
                | (tr', None) \<Rightarrow>
                    if \<not> cancel_ok env then (tr', Exit EXIT_FAILURE)
                    else if \<not> join_print_ok env then (tr' @ [Cancel_print], Exit EXIT_FAILURE)
                    else (tr' @ [Cancel_print, Join_print, Print_words], Exit EXIT_SUCCESS))))"

section \<open>Runs of the program\<close>

text \<open>
  The calls of \<^verbatim>\<open>wc_new_word_callback\<close> in the order in which they take the mutex; a call
  with undefined behaviour ends the run.
\<close>

fun wc_run :: "wc_Context \<Rightarrow> string list \<Rightarrow> error + wc_Context" where
  "wc_run ctxt [] = Inr ctxt"
| "wc_run ctxt (buf # bufs) =
     (case wc_new_word_callback buf ctxt of
        Inl e \<Rightarrow> Inl e
      | Inr ctxt' \<Rightarrow> wc_run ctxt' bufs)"

text \<open>A callback that only notes the words the reader hands over.\<close>

definition note_word :: "string \<Rightarrow> string list \<Rightarrow> error + string list" where
  "note_word buf seen = Inr (seen @ [buf])"

text \<open>The count the table holds for a word: 0 when no slot in use has the word.\<close>

definition wc_count :: "wc_Context \<Rightarrow> string \<Rightarrow> int" where
  "wc_count ctxt w =
     (case find (\<lambda>e. word e = w) (entries ctxt) of None \<Rightarrow> 0 | Some e \<Rightarrow> freq e)"

section \<open>Notions used in the proofs\<close>

text \<open>A context whose counter \<^verbatim>\<open>len\<close> stays within its array.\<close>

definition well_formed :: "wc_Context \<Rightarrow> bool" where
  "well_formed ctxt \<longleftrightarrow> len ctxt \<le> length (words ctxt)"

text \<open>
  What \<^verbatim>\<open>wc_store_word\<close> does to the slots in use when it returns: the slot of a known
  word counts one more, a new word gets a slot at the end.
\<close>

definition count_up :: "string \<Rightarrow> wc_Word \<Rightarrow> wc_Word" where
  "count_up buf e = (if word e = buf then e\<lparr>freq := freq e + 1\<rparr> else e)"

definition store_spec :: "wc_Word list \<Rightarrow> string \<Rightarrow> wc_Word list" where
  "store_spec es buf =
     (if buf \<in> word ` set es then map (count_up buf) es
      else es @ [\<lparr>word = buf, freq = 1\<rparr>])"

text \<open>
  The slots \<open>es\<close> tally the recorded words \<open>ws\<close>: no word has two slots, the words with a
  slot are the recorded ones, and every counter is the number of times its word was
  recorded.
\<close>

definition tally :: "wc_Word list \<Rightarrow> string list \<Rightarrow> bool" where
  "tally es ws \<longleftrightarrow>
     distinct (map word es) \<and> word ` set es = set ws \<and>
     (\<forall>e\<in>set es. freq e = int (count_list ws (word e)))"

text \<open>The order \<^verbatim>\<open>qsort\<close> establishes: \<open>a\<close> may stand before \<open>b\<close>.\<close>

definition compar_le :: "wc_Word \<Rightarrow> wc_Word \<Rightarrow> bool" where
  "compar_le a b \<longleftrightarrow> wc_compare_words a b \<le> 0"

text \<open>The lines of a text: the pieces that end in a newline, and what follows the last one.\<close>

fun lines_of :: "string \<Rightarrow> string list" where
  "lines_of [] = []"
| "lines_of (c # cs) =
     (if c = CHR 0x0A then [] # lines_of cs
      else (case lines_of cs of [] \<Rightarrow> [[c]] | l # ls \<Rightarrow> (c # l) # ls))"

text \<open>The context of \<^verbatim>\<open>main\<close> after \<^verbatim>\<open>ctxt.len = 0\<close>, on memory that holds zeros.\<close>

definition zeroed_ctxt :: wc_Context where
  "zeroed_ctxt = \<lparr>words = replicate 128 \<lparr>word = [], freq = 0\<rparr>, len = 0\<rparr>"

text \<open>The equations of the loops are unfolded by hand, one iteration at a time.\<close>

declare wc_lookup.simps [simp del]
declare wc_print_loop.simps [simp del]
declare wc_read_loop.simps [simp del]
declare dec_nat.simps [simp del]
declare main_open_loop.simps [simp del]
declare main_join_loop.simps [simp del]

section \<open>The comparison and the sort\<close>

lemma strcmp_zero_iff: "strcmp a b = 0 \<longleftrightarrow> a = b"
  by (induction a b rule: strcmp.induct) auto

lemma strcmp_neg_iff: "strcmp a b < 0 \<longleftrightarrow> a < b"
  by (induction a b rule: strcmp.induct) (auto simp: less_char_def)

lemma strcmp_le_iff: "strcmp a b \<le> 0 \<longleftrightarrow> a \<le> b"
  using strcmp_zero_iff [of a b] strcmp_neg_iff [of a b] by (auto simp: order.order_iff_strict)

lemma compar_le_iff:
  "compar_le a b \<longleftrightarrow> freq b < freq a \<or> (freq a = freq b \<and> word a \<le> word b)"
  by (auto simp: compar_le_def wc_compare_words_def strcmp_le_iff)

lemma compar_le_total: "\<not> compar_le a b \<Longrightarrow> compar_le b a"
  by (auto simp: compar_le_iff)

lemma compar_le_trans: "compar_le a b \<Longrightarrow> compar_le b c \<Longrightarrow> compar_le a c"
  by (auto simp: compar_le_iff)

lemma compar_le_antisym: "compar_le a b \<Longrightarrow> compar_le b a \<Longrightarrow> word a = word b \<and> freq a = freq b"
  by (auto simp: compar_le_iff)

lemma mset_qsort_place: "mset (qsort_place compar a bs) = add_mset a (mset bs)"
  by (induction bs) auto

lemma mset_foldr_qsort_place: "mset (foldr (qsort_place compar) xs []) = mset xs"
  by (induction xs) (auto simp: mset_qsort_place)

lemma set_qsort_place: "set (qsort_place compar a bs) = insert a (set bs)"
  by (induction bs) auto

lemma sorted_qsort_place:
  "sorted_wrt compar_le bs \<Longrightarrow> sorted_wrt compar_le (qsort_place wc_compare_words a bs)"
proof (induction bs)
  case Nil
  then show ?case by simp
next
  case (Cons b bs)
  show ?case
  proof (cases "compar_le a b")
    case True
    with Cons.prems have "\<forall>x\<in>set bs. compar_le a x"
      by (auto intro: compar_le_trans)
    with True Cons.prems show ?thesis
      by (simp add: compar_le_def)
  next
    case False
    then have "compar_le b a" by (rule compar_le_total)
    with False Cons show ?thesis
      by (auto simp: compar_le_def set_qsort_place)
  qed
qed

lemma sorted_foldr_qsort_place:
  "sorted_wrt compar_le (foldr (qsort_place wc_compare_words) xs [])"
  by (induction xs) (auto intro: sorted_qsort_place)

lemma length_qsort: "length (qsort base nmemb compar) = length base"
proof -
  have "length (foldr (qsort_place compar) (take nmemb base) []) = length (take nmemb base)"
    using mset_foldr_qsort_place [of compar "take nmemb base"] by (metis size_mset)
  then show ?thesis by (simp add: qsort_def)
qed

lemma take_qsort:
  "nmemb \<le> length base \<Longrightarrow>
   take nmemb (qsort base nmemb compar) = foldr (qsort_place compar) (take nmemb base) []"
proof -
  assume "nmemb \<le> length base"
  moreover have "length (foldr (qsort_place compar) (take nmemb base) []) = length (take nmemb base)"
    using mset_foldr_qsort_place [of compar "take nmemb base"] by (metis size_mset)
  ultimately show ?thesis by (simp add: qsort_def)
qed

lemma sorted_wrt_unique:
  assumes "sorted_wrt R xs" "sorted_wrt R ys" "mset xs = mset ys"
    and "\<And>a b. a \<in> set xs \<Longrightarrow> b \<in> set xs \<Longrightarrow> R a b \<Longrightarrow> R b a \<Longrightarrow> a = b"
  shows "xs = ys"
  using assms
proof (induction xs arbitrary: ys)
  case Nil
  then show ?case by simp
next
  case (Cons x xs)
  from Cons.prems(3) obtain y ys' where ys: "ys = y # ys'"
    by (cases ys) auto
  have sets: "set (x # xs) = set ys"
    using Cons.prems(3) by (metis set_mset_mset)
  have "x = y"
  proof (rule ccontr)
    assume ne: "x \<noteq> y"
    with sets ys have mem: "x \<in> set ys'" "y \<in> set xs" by auto
    with Cons.prems(1,2) ys have "R x y" "R y x" by auto
    with Cons.prems(4) [of x y] mem ne show False by auto
  qed
  moreover from this Cons.prems(3) ys have "mset xs = mset ys'" by simp
  moreover have "xs = ys'" if "mset xs = mset ys'"
    using Cons.IH [of ys'] Cons.prems(1,2,4) ys that by auto
  ultimately show ?case using ys by simp
qed

lemma qsort_unique:
  assumes "distinct (map word xs)" "mset ys = mset xs" "sorted_wrt compar_le ys"
  shows "ys = foldr (qsort_place wc_compare_words) xs []"
proof (rule sorted_wrt_unique [where R = compar_le])
  show "sorted_wrt compar_le ys" by fact
  show "sorted_wrt compar_le (foldr (qsort_place wc_compare_words) xs [])"
    by (rule sorted_foldr_qsort_place)
  show "mset ys = mset (foldr (qsort_place wc_compare_words) xs [])"
    using assms(2) by (simp add: mset_foldr_qsort_place)
  fix a b assume "a \<in> set ys" "b \<in> set ys" "compar_le a b" "compar_le b a"
  then show "a = b" using compar_le_antisym [of a b] by simp
qed

section \<open>Lookup and store\<close>

lemma length_entries: "well_formed ctxt \<Longrightarrow> length (entries ctxt) = len ctxt"
  by (simp add: well_formed_def entries_def)

lemma entries_nth: "j < len ctxt \<Longrightarrow> entries ctxt ! j = words ctxt ! j"
  by (simp add: entries_def)

lemma word_in_entries_iff:
  assumes "well_formed ctxt"
  shows "buf \<in> word ` set (entries ctxt) \<longleftrightarrow> (\<exists>j<len ctxt. word (words ctxt ! j) = buf)"
proof
  assume "buf \<in> word ` set (entries ctxt)"
  then obtain e where "e \<in> set (entries ctxt)" "word e = buf" by auto
  then obtain j where "j < length (entries ctxt)" "entries ctxt ! j = e"
    by (auto simp: in_set_conv_nth)
  with assms \<open>word e = buf\<close> show "\<exists>j<len ctxt. word (words ctxt ! j) = buf"
    by (auto simp: length_entries entries_nth)
next
  assume "\<exists>j<len ctxt. word (words ctxt ! j) = buf"
  then obtain j where j: "j < len ctxt" "word (words ctxt ! j) = buf" by auto
  with assms have "entries ctxt ! j \<in> set (entries ctxt)"
    by (simp add: length_entries)
  with j show "buf \<in> word ` set (entries ctxt)"
    by (auto simp: entries_nth intro!: image_eqI [where x = "entries ctxt ! j"])
qed

lemma wc_lookup_result:
  assumes "well_formed ctxt"
  shows "\<exists>r. wc_lookup ctxt buf i found = Inr r \<and>
           (if \<exists>j. i \<le> j \<and> j < len ctxt \<and> word (words ctxt ! j) = buf
            then 0 \<le> r \<and> nat r < len ctxt \<and> word (words ctxt ! nat r) = buf
            else r = found)"
  using assms
proof (induction ctxt buf i found rule: wc_lookup.induct)
  case (1 ctxt buf i found)
  show ?case
  proof (cases "i < len ctxt")
    case False
    then show ?thesis by (subst wc_lookup.simps) auto
  next
    case True
    with "1.prems" have il: "i < length (words ctxt)"
      by (simp add: well_formed_def)
    let ?f = "if strcmp (word (words ctxt ! i)) buf = 0 then int i else found"
    from "1.IH" [OF True il "1.prems"]
    obtain r where r: "wc_lookup ctxt buf (i + 1) ?f = Inr r"
      and rest: "if \<exists>j. i + 1 \<le> j \<and> j < len ctxt \<and> word (words ctxt ! j) = buf
            then 0 \<le> r \<and> nat r < len ctxt \<and> word (words ctxt ! nat r) = buf
            else r = ?f"
      by blast
    have eq: "wc_lookup ctxt buf i found = Inr r"
      using True il r by (subst wc_lookup.simps) simp
    let ?later = "\<exists>j. i + 1 \<le> j \<and> j < len ctxt \<and> word (words ctxt ! j) = buf"
    let ?here = "word (words ctxt ! i) = buf"
    have split: "(\<exists>j. i \<le> j \<and> j < len ctxt \<and> word (words ctxt ! j) = buf) \<longleftrightarrow>
        ?here \<or> ?later"
    proof
      assume "\<exists>j. i \<le> j \<and> j < len ctxt \<and> word (words ctxt ! j) = buf"
      then obtain j where j: "i \<le> j" "j < len ctxt" "word (words ctxt ! j) = buf" by blast
      show "?here \<or> ?later"
      proof (cases "j = i")
        case True
        with j show ?thesis by simp
      next
        case False
        with j have "i + 1 \<le> j" by simp
        with j show ?thesis by blast
      qed
    next
      assume "?here \<or> ?later"
      then show "\<exists>j. i \<le> j \<and> j < len ctxt \<and> word (words ctxt ! j) = buf"
      proof
        assume ?here
        with True show ?thesis by blast
      next
        assume ?later
        then obtain j where "i + 1 \<le> j" "j < len ctxt" "word (words ctxt ! j) = buf" by blast
        then have "i \<le> j \<and> j < len ctxt \<and> word (words ctxt ! j) = buf" by simp
        then show ?thesis by blast
      qed
    qed
    show ?thesis
    proof (cases ?later)
      case True
      with rest eq split show ?thesis by auto
    next
      case no_later: False
      with rest have r': "r = ?f" by simp
      show ?thesis
      proof (cases ?here)
        case True
        with r' \<open>i < len ctxt\<close> eq split show ?thesis by (auto simp: strcmp_zero_iff)
      next
        case False
        with r' no_later eq split show ?thesis by (auto simp: strcmp_zero_iff)
      qed
    qed
  qed
qed

lemma wc_lookup_absent:
  assumes "well_formed ctxt" "buf \<notin> word ` set (entries ctxt)"
  shows "wc_lookup ctxt buf 0 (- 1) = Inr (- 1)"
  using wc_lookup_result [OF assms(1), of buf 0 "- 1"] assms
  by (auto simp: word_in_entries_iff split: if_splits)

lemma wc_lookup_present:
  assumes "well_formed ctxt" "buf \<in> word ` set (entries ctxt)"
  shows "\<exists>j<len ctxt. wc_lookup ctxt buf 0 (- 1) = Inr (int j) \<and> word (words ctxt ! j) = buf"
proof -
  from wc_lookup_result [OF assms(1), of buf 0 "- 1"] assms
  obtain r where "wc_lookup ctxt buf 0 (- 1) = Inr r" "0 \<le> r" "nat r < len ctxt"
    "word (words ctxt ! nat r) = buf"
    by (auto simp: word_in_entries_iff split: if_splits)
  then show ?thesis by (intro exI [of _ "nat r"]) simp
qed

lemma update_as_map:
  assumes "distinct (map word es)" "j < length es" "word (es ! j) = buf"
  shows "es[j := (es ! j)\<lparr>freq := freq (es ! j) + 1\<rparr>] = map (count_up buf) es"
proof (rule nth_equalityI)
  show "length (es[j := (es ! j)\<lparr>freq := freq (es ! j) + 1\<rparr>]) = length (map (count_up buf) es)"
    by simp
next
  fix k assume "k < length (es[j := (es ! j)\<lparr>freq := freq (es ! j) + 1\<rparr>])"
  then have k: "k < length es" by simp
  show "es[j := (es ! j)\<lparr>freq := freq (es ! j) + 1\<rparr>] ! k = map (count_up buf) es ! k"
  proof (cases "k = j")
    case True
    with assms show ?thesis by (simp add: count_up_def)
  next
    case False
    with assms k have "map word es ! k \<noteq> map word es ! j"
      by (simp add: nth_eq_iff_index_eq del: nth_map)
    with assms k False show ?thesis by (simp add: count_up_def)
  qed
qed

lemma wc_store_word_new:
  assumes "well_formed ctxt" "buf \<notin> word ` set (entries ctxt)"
  shows "wc_store_word ctxt buf =
     (if len ctxt < length (words ctxt) then
        (if length buf < 128 then
           Inr (ctxt\<lparr>words := (words ctxt)[len ctxt := \<lparr>word = buf, freq = 1\<rparr>],
                     len := len ctxt + 1\<rparr>)
         else Inl Word_overflow)
      else Inl Table_overflow)"
  by (simp add: wc_store_word_def wc_lookup_absent [OF assms])

lemma wc_store_word_known:
  assumes "well_formed ctxt" "buf \<in> word ` set (entries ctxt)"
  shows "\<exists>j<len ctxt. word (words ctxt ! j) = buf \<and> wc_store_word ctxt buf =
     (if freq (words ctxt ! j) < INT_MAX then
        Inr (ctxt\<lparr>words := (words ctxt)[j := (words ctxt ! j)\<lparr>freq := freq (words ctxt ! j) + 1\<rparr>]\<rparr>)
      else Inl Freq_overflow)"
proof -
  from wc_lookup_present [OF assms]
  obtain j where "j < len ctxt" "wc_lookup ctxt buf 0 (- 1) = Inr (int j)"
    "word (words ctxt ! j) = buf" by blast
  then show ?thesis
    by (intro exI [of _ j]) (simp add: wc_store_word_def)
qed

lemma wc_store_word_entries:
  assumes "well_formed ctxt" "distinct (map word (entries ctxt))"
    and "wc_store_word ctxt buf = Inr ctxt'"
  shows "entries ctxt' = store_spec (entries ctxt) buf \<and> well_formed ctxt' \<and>
         length (words ctxt') = length (words ctxt)"
proof (cases "buf \<in> word ` set (entries ctxt)")
  case False
  with assms(3) wc_store_word_new [OF assms(1) False]
  have lt: "len ctxt < length (words ctxt)"
    and c': "ctxt' = ctxt\<lparr>words := (words ctxt)[len ctxt := \<lparr>word = buf, freq = 1\<rparr>],
                     len := len ctxt + 1\<rparr>"
    by (auto split: if_splits)
  from lt have "take (Suc (len ctxt)) ((words ctxt)[len ctxt := \<lparr>word = buf, freq = 1\<rparr>]) =
      take (len ctxt) (words ctxt) @ [\<lparr>word = buf, freq = 1\<rparr>]"
    by (simp add: take_Suc_conv_app_nth)
  with False lt c' show ?thesis
    by (simp add: entries_def store_spec_def well_formed_def)
next
  case True
  from wc_store_word_known [OF assms(1) True] assms(3)
  obtain j where j: "j < len ctxt" "word (words ctxt ! j) = buf"
    and c': "ctxt' = ctxt\<lparr>words := (words ctxt)[j := (words ctxt ! j)\<lparr>freq := freq (words ctxt ! j) + 1\<rparr>]\<rparr>"
    by (auto split: if_splits)
  from assms(1) j have jl: "j < length (entries ctxt)" "entries ctxt ! j = words ctxt ! j"
    by (simp_all add: length_entries entries_nth)
  have "entries ctxt' = (entries ctxt)[j := (entries ctxt ! j)\<lparr>freq := freq (entries ctxt ! j) + 1\<rparr>]"
    using c' jl by (simp add: entries_def take_update_swap)
  also have "\<dots> = map (count_up buf) (entries ctxt)"
    using assms(2) jl j by (intro update_as_map) simp_all
  finally show ?thesis
    using True c' assms(1) by (simp add: store_spec_def well_formed_def)
qed

lemma wc_new_word_callback_entries:
  assumes "well_formed ctxt" "distinct (map word (entries ctxt))"
    and "wc_new_word_callback buf ctxt = Inr ctxt'"
  shows "entries ctxt' = foldr (qsort_place wc_compare_words) (store_spec (entries ctxt) buf) [] \<and>
         well_formed ctxt' \<and> length (words ctxt') = length (words ctxt)"
proof -
  from assms(3) obtain c1 where c1: "wc_store_word ctxt buf = Inr c1"
    and c': "ctxt' = c1\<lparr>words := qsort (words c1) (len c1) wc_compare_words\<rparr>"
    by (auto simp: wc_new_word_callback_def split: sum.splits)
  from wc_store_word_entries [OF assms(1,2) c1]
  have e1: "entries c1 = store_spec (entries ctxt) buf" and wf1: "well_formed c1"
    and l1: "length (words c1) = length (words ctxt)" by simp_all
  from wf1 have "take (len c1) (qsort (words c1) (len c1) wc_compare_words) =
      foldr (qsort_place wc_compare_words) (take (len c1) (words c1)) []"
    by (intro take_qsort) (simp add: well_formed_def)
  with c' e1 wf1 l1 show ?thesis
    by (simp add: entries_def well_formed_def length_qsort)
qed

section \<open>The tally is kept by every call\<close>

lemma word_count_up [simp]: "word (count_up buf e) = word e"
  by (simp add: count_up_def)

lemma tally_store_spec:
  assumes "tally es ws"
  shows "tally (store_spec es buf) (ws @ [buf])"
proof (cases "buf \<in> word ` set es")
  case True
  with assms have "buf \<in> set ws" by (simp add: tally_def)
  then have ws': "set (ws @ [buf]) = set ws" by auto
  from True have st: "store_spec es buf = map (count_up buf) es"
    by (simp add: store_spec_def)
  have names: "map word (map (count_up buf) es) = map word es"
    by simp
  then have "set (map word (map (count_up buf) es)) = set (map word es)"
    by (rule arg_cong)
  then have img: "word ` set (map (count_up buf) es) = word ` set es"
    by (simp only: set_map)
  have "freq (count_up buf e) = int (count_list (ws @ [buf]) (word (count_up buf e)))"
    if "e \<in> set es" for e
    using that assms by (simp add: tally_def count_up_def)
  then have counts:
    "\<forall>e\<in>set (map (count_up buf) es). freq e = int (count_list (ws @ [buf]) (word e))"
    by (simp only: set_map ball_simps) blast
  from assms have "distinct (map word es)" "word ` set es = set ws"
    by (simp_all add: tally_def)
  with names img ws' counts show ?thesis
    unfolding tally_def st by (simp only: simp_thms)
next
  case False
  with assms have "buf \<notin> set ws" by (simp add: tally_def)
  then have zero: "count_list ws buf = 0" by simp
  from False have st: "store_spec es buf = es @ [\<lparr>word = buf, freq = 1\<rparr>]"
    by (simp add: store_spec_def)
  from assms have old: "distinct (map word es)" "word ` set es = set ws"
    "\<forall>e\<in>set es. freq e = int (count_list ws (word e))"
    by (simp_all add: tally_def)
  from old(1) False have "distinct (map word (es @ [\<lparr>word = buf, freq = 1\<rparr>]))"
    by simp
  moreover from old(2) have "word ` set (es @ [\<lparr>word = buf, freq = 1\<rparr>]) = set (ws @ [buf])"
    by simp
  moreover have "freq e = int (count_list (ws @ [buf]) (word e))"
    if "e \<in> set (es @ [\<lparr>word = buf, freq = 1\<rparr>])" for e
  proof (cases "e \<in> set es")
    case True
    with False have "word e \<noteq> buf" by auto
    with True old(3) show ?thesis by simp
  next
    case False
    with that have "e = \<lparr>word = buf, freq = 1\<rparr>" by simp
    with zero show ?thesis by simp
  qed
  ultimately show ?thesis
    unfolding tally_def st by blast
qed

lemma tally_mset:
  assumes "mset es' = mset es" "tally es ws"
  shows "tally es' ws"
proof -
  from assms(1) have "mset (map word es') = mset (map word es)" by simp
  then have "distinct (map word es') \<longleftrightarrow> distinct (map word es)"
    by (rule mset_eq_imp_distinct_iff)
  moreover from assms(1) have "set es' = set es" by (rule mset_eq_setD)
  ultimately show ?thesis using assms(2) by (simp add: tally_def)
qed

lemma tally_Nil: "tally [] []"
  by (simp add: tally_def)

lemma tally_wc_count:
  assumes "tally (entries ctxt) ws"
  shows "wc_count ctxt w = int (count_list ws w)"
proof (cases "find (\<lambda>e. word e = w) (entries ctxt)")
  case None
  then have "w \<notin> word ` set (entries ctxt)" by (auto simp: find_None_iff)
  with assms have "w \<notin> set ws" by (simp add: tally_def)
  with None show ?thesis by (simp add: wc_count_def)
next
  case (Some e)
  then have "e \<in> set (entries ctxt)" "word e = w"
    by (auto simp: find_Some_iff)
  with assms Some show ?thesis by (auto simp: wc_count_def tally_def)
qed

lemma tally_length:
  assumes "tally es ws"
  shows "length es = card (set ws)"
proof -
  from assms have "distinct (map word es)" "set (map word es) = set ws"
    by (simp_all add: tally_def)
  then show ?thesis using distinct_card [of "map word es"] by simp
qed

lemma wc_new_word_callback_tally:
  assumes "well_formed ctxt" "tally (entries ctxt) pre"
    and "wc_new_word_callback buf ctxt = Inr ctxt'"
  shows "tally (entries ctxt') (pre @ [buf]) \<and> sorted_wrt compar_le (entries ctxt') \<and>
         well_formed ctxt' \<and> length (words ctxt') = length (words ctxt)"
proof -
  from assms(2) have "distinct (map word (entries ctxt))" by (simp add: tally_def)
  from wc_new_word_callback_entries [OF assms(1) this assms(3)]
  have e: "entries ctxt' = foldr (qsort_place wc_compare_words) (store_spec (entries ctxt) buf) []"
    and rest: "well_formed ctxt'" "length (words ctxt') = length (words ctxt)" by simp_all
  have "tally (entries ctxt') (pre @ [buf])"
    unfolding e
    by (rule tally_mset [OF mset_foldr_qsort_place tally_store_spec [OF assms(2)]])
  moreover have "sorted_wrt compar_le (entries ctxt')"
    unfolding e by (rule sorted_foldr_qsort_place)
  ultimately show ?thesis using rest by simp
qed

lemma wc_run_tally:
  assumes "well_formed ctxt" "tally (entries ctxt) pre" "sorted_wrt compar_le (entries ctxt)"
    and "wc_run ctxt bufs = Inr ctxt'"
  shows "tally (entries ctxt') (pre @ bufs) \<and> sorted_wrt compar_le (entries ctxt') \<and>
         well_formed ctxt' \<and> length (words ctxt') = length (words ctxt)"
  using assms
proof (induction bufs arbitrary: ctxt pre)
  case Nil
  then show ?case by simp
next
  case (Cons buf bufs)
  from Cons.prems(4) obtain c1 where c1: "wc_new_word_callback buf ctxt = Inr c1"
    and run: "wc_run c1 bufs = Inr ctxt'"
    by (auto split: sum.splits)
  from wc_new_word_callback_tally [OF Cons.prems(1,2) c1]
  have s1: "tally (entries c1) (pre @ [buf])" "sorted_wrt compar_le (entries c1)"
    "well_formed c1" "length (words c1) = length (words ctxt)" by simp_all
  from Cons.IH [OF s1(3) s1(1) s1(2) run] s1(4) show ?case by simp
qed

lemma wc_new_word_callback_defined:
  assumes "well_formed ctxt" "tally (entries ctxt) pre"
    and "length buf < 128"
    and "card (set (pre @ [buf])) \<le> length (words ctxt)"
    and "int (count_list (pre @ [buf]) buf) \<le> INT_MAX"
  shows "\<exists>ctxt'. wc_new_word_callback buf ctxt = Inr ctxt'"
proof -
  have "\<exists>c1. wc_store_word ctxt buf = Inr c1"
  proof (cases "buf \<in> word ` set (entries ctxt)")
    case True
    from wc_store_word_known [OF assms(1) True]
    obtain j where j: "j < len ctxt" "word (words ctxt ! j) = buf"
      and st: "wc_store_word ctxt buf =
        (if freq (words ctxt ! j) < INT_MAX then
           Inr (ctxt\<lparr>words := (words ctxt)[j := (words ctxt ! j)\<lparr>freq := freq (words ctxt ! j) + 1\<rparr>]\<rparr>)
         else Inl Freq_overflow)" by blast
    from assms(1) j have "words ctxt ! j \<in> set (entries ctxt)"
      by (metis entries_nth length_entries nth_mem)
    with assms(2) j have "freq (words ctxt ! j) = int (count_list pre buf)"
      by (auto simp: tally_def)
    with assms(5) have "freq (words ctxt ! j) < INT_MAX" by simp
    with st show ?thesis by simp
  next
    case False
    with assms(2) have "buf \<notin> set pre" by (simp add: tally_def)
    then have "card (set (pre @ [buf])) = Suc (card (set pre))" by simp
    with assms(4) tally_length [OF assms(2)] length_entries [OF assms(1)]
    have "len ctxt < length (words ctxt)" by simp
    with assms(3) wc_store_word_new [OF assms(1) False] show ?thesis by simp
  qed
  then show ?thesis by (auto simp: wc_new_word_callback_def)
qed

lemma wc_run_defined:
  assumes "well_formed ctxt" "tally (entries ctxt) pre"
    and "\<forall>buf\<in>set bufs. length buf < 128"
    and "card (set (pre @ bufs)) \<le> length (words ctxt)"
    and "\<forall>w. int (count_list (pre @ bufs) w) \<le> INT_MAX"
  shows "\<exists>ctxt'. wc_run ctxt bufs = Inr ctxt'"
  using assms
proof (induction bufs arbitrary: ctxt pre)
  case Nil
  then show ?case by simp
next
  case (Cons buf bufs)
  have "card (set (pre @ [buf])) \<le> card (set (pre @ buf # bufs))"
    by (rule card_mono) auto
  with Cons.prems(4) have cap: "card (set (pre @ [buf])) \<le> length (words ctxt)" by simp
  have "count_list (pre @ [buf]) buf \<le> count_list (pre @ buf # bufs) buf" by simp
  with Cons.prems(5) have cnt: "int (count_list (pre @ [buf]) buf) \<le> INT_MAX"
    by (meson of_nat_le_iff order_trans)
  from Cons.prems(3) have "length buf < 128" by simp
  from wc_new_word_callback_defined [OF Cons.prems(1,2) this cap cnt]
  obtain c1 where c1: "wc_new_word_callback buf ctxt = Inr c1" by blast
  from wc_new_word_callback_tally [OF Cons.prems(1,2) c1]
  have s1: "tally (entries c1) (pre @ [buf])" "well_formed c1"
    "length (words c1) = length (words ctxt)" by simp_all
  from Cons.prems(3,4,5) s1(3)
  have "\<exists>ctxt'. wc_run c1 bufs = Inr ctxt'"
    by (intro Cons.IH [OF s1(2) s1(1)]) simp_all
  with c1 show ?case by simp
qed

section \<open>Runs from the empty table\<close>

lemma wc_run_append:
  "wc_run ctxt (xs @ ys) = (case wc_run ctxt xs of Inl e \<Rightarrow> Inl e | Inr ctxt' \<Rightarrow> wc_run ctxt' ys)"
  by (induction xs arbitrary: ctxt) (auto split: sum.splits)

lemma empty_table:
  assumes "len ctxt = 0"
  shows "well_formed ctxt" "entries ctxt = []" "tally (entries ctxt) []"
    "sorted_wrt compar_le (entries ctxt)"
  using assms by (simp_all add: well_formed_def entries_def tally_def)

lemma wc_run_from_empty:
  assumes "len ctxt0 = 0" "wc_run ctxt0 bufs = Inr ctxt"
  shows "tally (entries ctxt) bufs" "sorted_wrt compar_le (entries ctxt)" "well_formed ctxt"
    "length (words ctxt) = length (words ctxt0)"
  using wc_run_tally [OF empty_table(1,3,4) [OF assms(1)] assms(2)] by simp_all

lemma wc_run_from_empty_defined:
  assumes "len ctxt0 = 0"
    and "\<forall>buf\<in>set bufs. length buf < 128"
    and "card (set bufs) \<le> length (words ctxt0)"
    and "\<forall>buf\<in>set bufs. int (count_list bufs buf) \<le> INT_MAX"
  shows "\<exists>ctxt. wc_run ctxt0 bufs = Inr ctxt"
proof -
  have "int (count_list bufs w) \<le> INT_MAX" for w
  proof (cases "w \<in> set bufs")
    case True
    with assms(4) show ?thesis by simp
  next
    case False
    then show ?thesis by (simp add: INT_MAX_def)
  qed
  with wc_run_defined [OF empty_table(1,3) [OF assms(1)], of bufs] assms(2,3)
  show ?thesis by simp
qed

lemma count_list_distinct: "distinct xs \<Longrightarrow> count_list xs x \<le> 1"
  by (induction xs) auto

lemma wc_run_table_overflow:
  assumes "len ctxt0 = 0" "distinct bufs" "length bufs = length (words ctxt0)"
    and "\<forall>buf\<in>set bufs. length buf < 128" "buf \<notin> set bufs"
  shows "wc_run ctxt0 (bufs @ [buf]) = Inl Table_overflow"
proof -
  from assms(2) have once: "count_list bufs w \<le> 1" for w
    by (rule count_list_distinct)
  have "\<forall>w\<in>set bufs. int (count_list bufs w) \<le> INT_MAX"
  proof
    fix w
    from once [of w] show "int (count_list bufs w) \<le> INT_MAX" by (simp add: INT_MAX_def)
  qed
  moreover from assms(2,3) have card: "card (set bufs) = length (words ctxt0)"
    by (simp add: distinct_card)
  ultimately obtain ctxt where run: "wc_run ctxt0 bufs = Inr ctxt"
    using wc_run_from_empty_defined [OF assms(1,4)] by auto
  note facts = wc_run_from_empty [OF assms(1) run]
  from facts(1) assms(5) have absent: "buf \<notin> word ` set (entries ctxt)"
    by (simp add: tally_def)
  from tally_length [OF facts(1)] length_entries [OF facts(3)] card facts(4)
  have "len ctxt = length (words ctxt)" by simp
  with wc_store_word_new [OF facts(3) absent]
  have "wc_store_word ctxt buf = Inl Table_overflow" by simp
  then have "wc_new_word_callback buf ctxt = Inl Table_overflow"
    by (simp add: wc_new_word_callback_def)
  with run show ?thesis by (simp add: wc_run_append)
qed


lemma sorted_strict:
  assumes "sorted_wrt compar_le es" "distinct (map word es)"
  shows "sorted_wrt (\<lambda>a b. freq b < freq a \<or> (freq a = freq b \<and> word a < word b)) es"
  unfolding sorted_wrt_iff_nth_less
proof (intro allI impI)
  fix i j assume ij: "i < j" "j < length es"
  with assms(1) have le: "compar_le (es ! i) (es ! j)"
    by (simp add: sorted_wrt_iff_nth_less)
  from ij assms(2) have "map word es ! i \<noteq> map word es ! j"
    by (simp add: nth_eq_iff_index_eq del: nth_map)
  with ij have "word (es ! i) \<noteq> word (es ! j)" by simp
  with le show "freq (es ! j) < freq (es ! i) \<or>
      (freq (es ! i) = freq (es ! j) \<and> word (es ! i) < word (es ! j))"
    by (auto simp: compar_le_iff)
qed


text \<open>
  The counters of such a table lie between 1 and \<^verbatim>\<open>INT_MAX\<close>, so that the subtraction in
  \<^verbatim>\<open>wc_compare_words\<close> stays within \<^verbatim>\<open>int\<close>.
\<close>

lemma wc_store_word_freq_range:
  assumes "well_formed ctxt" "distinct (map word (entries ctxt))"
    and "\<forall>e\<in>set (entries ctxt). 1 \<le> freq e \<and> freq e \<le> INT_MAX"
    and "wc_store_word ctxt buf = Inr ctxt'"
  shows "\<forall>e\<in>set (entries ctxt'). 1 \<le> freq e \<and> freq e \<le> INT_MAX"
proof (cases "buf \<in> word ` set (entries ctxt)")
  case False
  with wc_store_word_entries [OF assms(1,2,4)]
  have "entries ctxt' = entries ctxt @ [\<lparr>word = buf, freq = 1\<rparr>]"
    by (simp add: store_spec_def)
  with assms(3) show ?thesis by (auto simp: INT_MAX_def)
next
  case True
  from wc_store_word_known [OF assms(1) True] assms(4)
  obtain j where j: "j < len ctxt" "word (words ctxt ! j) = buf"
    "freq (words ctxt ! j) < INT_MAX"
    by (auto split: if_splits)
  from assms(1) j(1) have mem: "words ctxt ! j \<in> set (entries ctxt)"
    by (metis entries_nth length_entries nth_mem)
  have only: "e = words ctxt ! j" if "e \<in> set (entries ctxt)" "word e = buf" for e
    using that mem j(2) assms(2) by (auto simp: distinct_map inj_on_def)
  from True wc_store_word_entries [OF assms(1,2,4)]
  have "entries ctxt' = map (count_up buf) (entries ctxt)"
    by (simp add: store_spec_def)
  moreover have "1 \<le> freq (count_up buf e) \<and> freq (count_up buf e) \<le> INT_MAX"
    if "e \<in> set (entries ctxt)" for e
  proof (cases "word e = buf")
    case True
    with only [OF that] j(3) assms(3) mem show ?thesis
      by (fastforce simp: count_up_def)
  next
    case False
    with assms(3) that show ?thesis by (simp add: count_up_def)
  qed
  ultimately show ?thesis by simp
qed

lemma wc_run_freq_range:
  assumes "len ctxt0 = 0" "wc_run ctxt0 bufs = Inr ctxt"
  shows "\<forall>e\<in>set (entries ctxt). 1 \<le> freq e \<and> freq e \<le> INT_MAX"
proof -
  have "\<forall>e\<in>set (entries c'). 1 \<le> freq e \<and> freq e \<le> INT_MAX"
    if "well_formed c" "tally (entries c) pre" "sorted_wrt compar_le (entries c)"
      "\<forall>e\<in>set (entries c). 1 \<le> freq e \<and> freq e \<le> INT_MAX" "wc_run c ws = Inr c'"
    for c c' pre ws
    using that
  proof (induction ws arbitrary: c pre)
    case Nil
    then show ?case by simp
  next
    case (Cons w ws)
    from Cons.prems(5) obtain c1 c2 where st: "wc_store_word c w = Inr c1"
      and cb: "wc_new_word_callback w c = Inr c2" and run: "wc_run c2 ws = Inr c'"
      by (auto simp: wc_new_word_callback_def split: sum.splits)
    from Cons.prems(2) have dist: "distinct (map word (entries c))" by (simp add: tally_def)
    from wc_store_word_freq_range [OF Cons.prems(1) dist Cons.prems(4) st]
    have r1: "\<forall>e\<in>set (entries c1). 1 \<le> freq e \<and> freq e \<le> INT_MAX" .
    from wc_store_word_entries [OF Cons.prems(1) dist st]
    have e1: "entries c1 = store_spec (entries c) w" by simp
    from wc_new_word_callback_entries [OF Cons.prems(1) dist cb]
    have "entries c2 = foldr (qsort_place wc_compare_words) (store_spec (entries c) w) []"
      by simp
    then have "set (entries c2) = set (entries c1)"
      using mset_foldr_qsort_place [of wc_compare_words "store_spec (entries c) w"] e1
      by (metis set_mset_mset)
    with r1 have r2: "\<forall>e\<in>set (entries c2). 1 \<le> freq e \<and> freq e \<le> INT_MAX" by simp
    from wc_new_word_callback_tally [OF Cons.prems(1,2) cb]
    have "tally (entries c2) (pre @ [w])" "sorted_wrt compar_le (entries c2)" "well_formed c2"
      by simp_all
    from Cons.IH [OF this(3) this(1) this(2) r2 run] show ?case .
  qed
  from this [OF empty_table(1,3,4) [OF assms(1)] _ assms(2)] empty_table(2) [OF assms(1)]
  show ?thesis by simp
qed

section \<open>The reader, one byte at a time\<close>

lemma char_of_int_unsigned_char: "char_of_int (unsigned_char b) = b"
  by (simp add: char_of_int_def unsigned_char_def)

lemma int_of_char_EOF_iff: "int_of_char b = EOF \<longleftrightarrow> b = CHR 0xFF"
proof -
  have nonneg: "0 \<le> (of_char b :: int)"
    by (metis of_nat_0_le_iff of_nat_of_char)
  have "(of_char b :: int) = 255 \<longleftrightarrow> b = CHR 0xFF"
  proof -
    have "(of_char (CHR 0xFF) :: int) = 255" by simp
    then show ?thesis by (metis of_char_eq_iff)
  qed
  with nonneg show ?thesis
    by (auto simp: int_of_char_def EOF_def)
qed

lemma char_of_int_EOF: "char_of_int EOF = CHR 0xFF"
  by code_simp

lemma wc_read_loop_Nil: "wc_read_loop callback [] state i buf ctxt = Inr (ctxt, [])"
  by (subst wc_read_loop.simps) (simp add: char_of_int_EOF int_of_char_EOF_iff)

lemma wc_read_loop_FF:
  "wc_read_loop callback (CHR 0xFF # fd) state i buf ctxt = Inr (ctxt, fd)"
  by (subst wc_read_loop.simps) (simp add: char_of_int_unsigned_char int_of_char_EOF_iff)

lemma wc_read_loop_Cons:
  assumes "b \<noteq> CHR 0xFF"
  shows "wc_read_loop callback (b # fd) state i buf ctxt =
     (if \<not> isalpha (unsigned_char b) then
        (if state = WC_IN_WORD then
           (if i < length buf then
              (case callback (c_string (buf[i := CHR 0x00])) ctxt of
                 Inl e \<Rightarrow> Inl e
               | Inr ctxt' \<Rightarrow> wc_read_loop callback fd WC_OUT_OF_WORD 0 (buf[i := CHR 0x00]) ctxt')
            else Inl Buffer_overflow)
         else wc_read_loop callback fd WC_OUT_OF_WORD 0 buf ctxt)
      else
        (if i < length buf then
           wc_read_loop callback fd
             (if state = WC_OUT_OF_WORD then WC_IN_WORD else state) (i + 1)
             (buf[i := char_of_int (tolower (unsigned_char b))]) ctxt
         else Inl Buffer_overflow))"
  using assms
  by (subst wc_read_loop.simps) (simp add: char_of_int_unsigned_char int_of_char_EOF_iff)

lemma wc_read_loop_stops:
  assumes "CHR 0xFF \<notin> set pre"
  shows "wc_read_loop callback (pre @ CHR 0xFF # post) state i buf ctxt =
         map_sum id (\<lambda>(ctxt', rest). (ctxt', post)) (wc_read_loop callback pre state i buf ctxt)"
  using assms
proof (induction pre arbitrary: state i buf ctxt)
  case Nil
  show ?case by (simp add: wc_read_loop_Nil wc_read_loop_FF)
next
  case (Cons b pre)
  then have b: "b \<noteq> CHR 0xFF" and pre: "CHR 0xFF \<notin> set pre" by auto
  note IH = Cons.IH [OF pre]
  show ?case
    by (simp add: wc_read_loop_Cons [OF b] IH split: sum.splits)
qed

lemma isalpha_not_FF: "isalpha (unsigned_char c) \<Longrightarrow> c \<noteq> CHR 0xFF"
  by (auto simp: isalpha_def unsigned_char_def)

lemma wc_read_loop_overflow:
  assumes "\<forall>c\<in>set run. isalpha (unsigned_char c)"
    and "i + length run = length buf"
    and "b \<noteq> CHR 0xFF"
    and "state = WC_IN_WORD \<or> (state = WC_OUT_OF_WORD \<and> run \<noteq> [])"
  shows "wc_read_loop callback (run @ b # rest) state i buf ctxt = Inl Buffer_overflow"
  using assms
proof (induction run arbitrary: state i buf)
  case Nil
  then show ?case
    by (simp add: wc_read_loop_Cons)
next
  case (Cons c run)
  from Cons.prems(1) have c: "isalpha (unsigned_char c)" "c \<noteq> CHR 0xFF"
    by (simp_all add: isalpha_not_FF)
  from Cons.prems(2) have i: "i < length buf" by simp
  have "wc_read_loop callback (run @ b # rest) WC_IN_WORD (i + 1)
          (buf[i := char_of_int (tolower (unsigned_char c))]) ctxt = Inl Buffer_overflow"
    using Cons.prems by (intro Cons.IH) simp_all
  with c i Cons.prems(4) show ?case
    by (auto simp: wc_read_loop_Cons)
qed


lemma wc_read_fd_abc: "wc_read_fd ''abc'' callback ctxt = Inr (ctxt, [])"
  by (simp add: wc_read_fd_def wc_read_loop_Cons wc_read_loop_Nil isalpha_def unsigned_char_def
      WC_IN_WORD_def WC_OUT_OF_WORD_def)

section \<open>The report and the coordinator\<close>

lemma wc_print_loop_eq:
  assumes "well_formed ctxt" "i \<le> len ctxt"
  shows "wc_print_loop ctxt i out = Inr (out @ concat (map printf_entry (drop i (entries ctxt))))"
  using assms
proof (induction ctxt i out rule: wc_print_loop.induct)
  case (1 ctxt i out)
  show ?case
  proof (cases "i < len ctxt")
    case False
    with "1.prems" have "drop i (entries ctxt) = []"
      by (simp add: length_entries)
    with False show ?thesis by (subst wc_print_loop.simps) simp
  next
    case True
    with "1.prems" have il: "i < length (words ctxt)" by (simp add: well_formed_def)
    from True "1.prems" have "drop i (entries ctxt) = words ctxt ! i # drop (i + 1) (entries ctxt)"
      by (metis Cons_nth_drop_Suc Suc_eq_plus1 entries_nth length_entries)
    moreover from "1.IH" [OF True il "1.prems"(1)] True
    have "wc_print_loop ctxt (i + 1) (out @ printf_entry (words ctxt ! i)) =
        Inr ((out @ printf_entry (words ctxt ! i)) @ concat (map printf_entry (drop (i + 1) (entries ctxt))))"
      by simp
    ultimately show ?thesis
      using True il by (subst wc_print_loop.simps) simp
  qed
qed

lemma wc_print_words_eq:
  assumes "well_formed ctxt"
  shows "wc_print_words ctxt =
     Inr (CHR 0x0A # ''Current word frequency count: '' @ [CHR 0x0A] @
          concat (map printf_entry (entries ctxt)) @
          ''----------------------------- '' @ [CHR 0x0A])"
  by (simp add: wc_print_words_def wc_print_loop_eq [OF assms])

lemma lines_of_line:
  "CHR 0x0A \<notin> set l \<Longrightarrow> lines_of (l @ CHR 0x0A # rest) = l # lines_of rest"
  by (induction l) auto

lemma lines_of_lines:
  "\<forall>l\<in>set ls. CHR 0x0A \<notin> set l \<Longrightarrow>
   lines_of (concat (map (\<lambda>l. l @ [CHR 0x0A]) ls) @ rest) = ls @ lines_of rest"
  by (induction ls) (simp_all add: lines_of_line)

lemma digit_not_newline: "d < 10 \<Longrightarrow> CHR 0x0A \<noteq> digit d"
proof
  assume d: "d < 10" and "CHR 0x0A = digit d"
  then have "(of_char (digit d) :: nat) = of_char (CHR 0x0A)" by simp
  with d show False by (simp add: digit_def)
qed

lemma dec_nat_no_newline: "CHR 0x0A \<notin> set (dec_nat n)"
proof (induction n rule: dec_nat.induct)
  case (1 n)
  show ?case
  proof (cases "n < 10")
    case True
    then show ?thesis by (subst dec_nat.simps) (simp add: digit_not_newline)
  next
    case False
    with "1.IH" show ?thesis
      by (subst dec_nat.simps) (simp add: digit_not_newline)
  qed
qed

lemma printf_d_no_newline: "CHR 0x0A \<notin> set (printf_d x)"
  by (simp add: printf_d_def dec_nat_no_newline)

lemma main_open_loop_beyond:
  assumes "\<forall>k. fopen_ok env k \<and> create_read_ok env k" "i \<le> 10" "10 < argc"
  shows "main_open_loop env argc i tr =
         (tr @ map Create_read [i..<10], Some (Undefined Thread_overflow))"
  using assms
proof (induction env argc i tr rule: main_open_loop.induct)
  case (1 env argc i tr)
  show ?case
  proof (cases "i < 10")
    case False
    with "1.prems" show ?thesis by (subst main_open_loop.simps) simp
  next
    case True
    with "1.prems" have lt: "i < argc" by simp
    have "main_open_loop env argc (i + 1) (tr @ [Create_read i]) =
        ((tr @ [Create_read i]) @ map Create_read [i + 1..<10], Some (Undefined Thread_overflow))"
      using "1.prems" True lt by (intro "1.IH") simp_all
    moreover from True have "[i..<10] = i # [i + 1..<10]" by (simp add: upt_conv_Cons)
    ultimately show ?thesis
      using "1.prems" True lt by (subst main_open_loop.simps) simp
  qed
qed

lemma main_many:
  assumes "10 < argc" "\<forall>k. fopen_ok env k \<and> create_read_ok env k"
  shows "main env argc = (map Create_read [0..<10], Undefined Thread_overflow)"
proof -
  have "[0..<10] = 0 # [1..<10]" by (simp add: upt_conv_Cons)
  with main_open_loop_beyond [OF assms(2) _ assms(1), of 1 "[Create_read 0]"] assms(2)
  show ?thesis by (simp add: main_def)
qed

section \<open>Recording occurrences (C1)\<close>

text \<open>
  C1, as amended. Start from the empty table of \<^verbatim>\<open>main\<close> (128 slots, \<^verbatim>\<open>len = 0\<close>) and record
  the words \<open>bufs\<close> and then \<open>buf\<close>, where all these words are shorter than 128 characters,
  at most 128 of them are distinct, and none occurs more than \<^verbatim>\<open>INT_MAX\<close> times. Then every
  call returns, and after the last call no word has two slots, the words with a slot
  are exactly the recorded ones, every counter is the number of times its word has been
  recorded, and the count of \<open>buf\<close> is 1 if it had no slot before the call and one more
  than before otherwise. Since \<open>bufs\<close> is arbitrary, this holds after each call of a
  sequence.
\<close>

theorem record_occurrence_counts:
  assumes "len ctxt0 = 0" and "length (words ctxt0) = 128"
    and "\<forall>w\<in>set (bufs @ [buf]). length w < 128"
    and "card (set (bufs @ [buf])) \<le> 128"
    and "\<forall>w\<in>set (bufs @ [buf]). int (count_list (bufs @ [buf]) w) \<le> INT_MAX"
  shows "\<exists>ctxt ctxt'.
      wc_run ctxt0 bufs = Inr ctxt \<and> wc_new_word_callback buf ctxt = Inr ctxt' \<and>
      distinct (map word (entries ctxt')) \<and>
      word ` set (entries ctxt') = set (bufs @ [buf]) \<and>
      (\<forall>e\<in>set (entries ctxt'). freq e = int (count_list (bufs @ [buf]) (word e))) \<and>
      (buf \<notin> word ` set (entries ctxt) \<longrightarrow> wc_count ctxt' buf = 1) \<and>
      (buf \<in> word ` set (entries ctxt) \<longrightarrow> wc_count ctxt' buf = wc_count ctxt buf + 1)"
proof -
  from assms(2,4) have "card (set (bufs @ [buf])) \<le> length (words ctxt0)" by simp
  from wc_run_from_empty_defined [OF assms(1,3) this assms(5)]
  obtain ctxt' where all: "wc_run ctxt0 (bufs @ [buf]) = Inr ctxt'" by blast
  then obtain ctxt where run: "wc_run ctxt0 bufs = Inr ctxt"
    and last: "wc_new_word_callback buf ctxt = Inr ctxt'"
    by (auto simp: wc_run_append split: sum.splits)
  from wc_run_from_empty(1) [OF assms(1) run] have before: "tally (entries ctxt) bufs" .
  from wc_run_from_empty(1) [OF assms(1) all] have after: "tally (entries ctxt') (bufs @ [buf])" .
  have c': "wc_count ctxt' buf = int (count_list bufs buf) + 1"
    using tally_wc_count [OF after, of buf] by simp
  have c: "wc_count ctxt buf = int (count_list bufs buf)"
    by (rule tally_wc_count [OF before])
  have "wc_count ctxt' buf = 1" if "buf \<notin> word ` set (entries ctxt)"
  proof -
    from that before have "buf \<notin> set bufs" by (simp add: tally_def)
    with c' show ?thesis by simp
  qed
  moreover from c c' have "wc_count ctxt' buf = wc_count ctxt buf + 1" by simp
  moreover from after have "distinct (map word (entries ctxt'))"
    "word ` set (entries ctxt') = set (bufs @ [buf])"
    "\<forall>e\<in>set (entries ctxt'). freq e = int (count_list (bufs @ [buf]) (word e))"
    by (simp_all add: tally_def)
  ultimately show ?thesis using run last by blast
qed


theorem record_occurrence_counts_witness:
  "\<exists>ctxt ctxt'.
      wc_run zeroed_ctxt [''the'', ''cat''] = Inr ctxt \<and>
      wc_new_word_callback ''the'' ctxt = Inr ctxt' \<and>
      entries ctxt = [\<lparr>word = ''cat'', freq = 1\<rparr>, \<lparr>word = ''the'', freq = 1\<rparr>] \<and>
      entries ctxt' = [\<lparr>word = ''the'', freq = 2\<rparr>, \<lparr>word = ''cat'', freq = 1\<rparr>] \<and>
      distinct (map word (entries ctxt')) \<and>
      word ` set (entries ctxt') = set ([''the'', ''cat''] @ [''the'']) \<and>
      (\<forall>e\<in>set (entries ctxt').
         freq e = int (count_list ([''the'', ''cat''] @ [''the'']) (word e))) \<and>
      wc_count ctxt ''the'' = 1 \<and> wc_count ctxt' ''the'' = 2"
proof -
  have h1: "len zeroed_ctxt = 0" and h2: "length (words zeroed_ctxt) = 128"
    by (simp_all add: zeroed_ctxt_def)
  have h3: "\<forall>w\<in>set ([''the'', ''cat''] @ [''the'']). length w < 128" by simp
  have h4: "card (set ([''the'', ''cat''] @ [''the''])) \<le> 128"
    using card_length [of "[''the'', ''cat''] @ [''the'']"] by simp
  have h5: "\<forall>w\<in>set ([''the'', ''cat''] @ [''the'']).
      int (count_list ([''the'', ''cat''] @ [''the'']) w) \<le> INT_MAX"
    by (simp add: INT_MAX_def)
  from record_occurrence_counts [OF h1 h2 h3 h4 h5]
  obtain ctxt ctxt' where run: "wc_run zeroed_ctxt [''the'', ''cat''] = Inr ctxt"
    and last: "wc_new_word_callback ''the'' ctxt = Inr ctxt'"
    and inv: "distinct (map word (entries ctxt'))"
      "word ` set (entries ctxt') = set ([''the'', ''cat''] @ [''the''])"
      "\<forall>e\<in>set (entries ctxt').
         freq e = int (count_list ([''the'', ''cat''] @ [''the'']) (word e))"
    and new: "''the'' \<notin> word ` set (entries ctxt) \<longrightarrow> wc_count ctxt' ''the'' = 1"
    and old: "''the'' \<in> word ` set (entries ctxt) \<longrightarrow>
         wc_count ctxt' ''the'' = wc_count ctxt ''the'' + 1"
    by blast
  have "map_sum id entries (wc_run zeroed_ctxt [''the'', ''cat'']) =
      Inr [\<lparr>word = ''cat'', freq = 1\<rparr>, \<lparr>word = ''the'', freq = 1\<rparr>]"
    by code_simp
  with run have e: "entries ctxt = [\<lparr>word = ''cat'', freq = 1\<rparr>, \<lparr>word = ''the'', freq = 1\<rparr>]"
    by simp
  have "map_sum id entries (wc_run zeroed_ctxt [''the'', ''cat'', ''the'']) =
      Inr [\<lparr>word = ''the'', freq = 2\<rparr>, \<lparr>word = ''cat'', freq = 1\<rparr>]"
    by code_simp
  with run last have e': "entries ctxt' = [\<lparr>word = ''the'', freq = 2\<rparr>, \<lparr>word = ''cat'', freq = 1\<rparr>]"
    using wc_run_append [of zeroed_ctxt "[''the'', ''cat'']" "[''the'']"] by simp
  from e have c: "wc_count ctxt ''the'' = 1" by (simp add: wc_count_def)
  from e old c have "wc_count ctxt' ''the'' = 2" by simp
  with run last e e' inv c show ?thesis by blast
qed

text \<open>
  C1 as stated, for every sequence of calls, fails: the 129th distinct word is written to
  \<^verbatim>\<open>words[128]\<close>, past the array, and is not inserted with count 1.
\<close>

theorem record_occurrence_counterexample:
  "wc_run \<lparr>words = replicate 128 \<lparr>word = [], freq = 0\<rparr>, len = 0\<rparr>
    [''aa'', ''ab'', ''ac'', ''ad'', ''ae'', ''af'', ''ag'', ''ah'', ''ai'', ''aj'',
     ''ak'', ''al'', ''am'', ''an'', ''ao'', ''ap'', ''ba'', ''bb'', ''bc'', ''bd'',
     ''be'', ''bf'', ''bg'', ''bh'', ''bi'', ''bj'', ''bk'', ''bl'', ''bm'', ''bn'',
     ''bo'', ''bp'', ''ca'', ''cb'', ''cc'', ''cd'', ''ce'', ''cf'', ''cg'', ''ch'',
     ''ci'', ''cj'', ''ck'', ''cl'', ''cm'', ''cn'', ''co'', ''cp'', ''da'', ''db'',
     ''dc'', ''dd'', ''de'', ''df'', ''dg'', ''dh'', ''di'', ''dj'', ''dk'', ''dl'',
     ''dm'', ''dn'', ''do'', ''dp'', ''ea'', ''eb'', ''ec'', ''ed'', ''ee'', ''ef'',
     ''eg'', ''eh'', ''ei'', ''ej'', ''ek'', ''el'', ''em'', ''en'', ''eo'', ''ep'',
     ''fa'', ''fb'', ''fc'', ''fd'', ''fe'', ''ff'', ''fg'', ''fh'', ''fi'', ''fj'',
     ''fk'', ''fl'', ''fm'', ''fn'', ''fo'', ''fp'', ''ga'', ''gb'', ''gc'', ''gd'',
     ''ge'', ''gf'', ''gg'', ''gh'', ''gi'', ''gj'', ''gk'', ''gl'', ''gm'', ''gn'',
     ''go'', ''gp'', ''ha'', ''hb'', ''hc'', ''hd'', ''he'', ''hf'', ''hg'', ''hh'',
     ''hi'', ''hj'', ''hk'', ''hl'', ''hm'', ''hn'', ''ho'', ''hp'', ''ia''] = Inl Table_overflow"
proof -
  have d: "distinct
    [''aa'', ''ab'', ''ac'', ''ad'', ''ae'', ''af'', ''ag'', ''ah'', ''ai'', ''aj'',
     ''ak'', ''al'', ''am'', ''an'', ''ao'', ''ap'', ''ba'', ''bb'', ''bc'', ''bd'',
     ''be'', ''bf'', ''bg'', ''bh'', ''bi'', ''bj'', ''bk'', ''bl'', ''bm'', ''bn'',
     ''bo'', ''bp'', ''ca'', ''cb'', ''cc'', ''cd'', ''ce'', ''cf'', ''cg'', ''ch'',
     ''ci'', ''cj'', ''ck'', ''cl'', ''cm'', ''cn'', ''co'', ''cp'', ''da'', ''db'',
     ''dc'', ''dd'', ''de'', ''df'', ''dg'', ''dh'', ''di'', ''dj'', ''dk'', ''dl'',
     ''dm'', ''dn'', ''do'', ''dp'', ''ea'', ''eb'', ''ec'', ''ed'', ''ee'', ''ef'',
     ''eg'', ''eh'', ''ei'', ''ej'', ''ek'', ''el'', ''em'', ''en'', ''eo'', ''ep'',
     ''fa'', ''fb'', ''fc'', ''fd'', ''fe'', ''ff'', ''fg'', ''fh'', ''fi'', ''fj'',
     ''fk'', ''fl'', ''fm'', ''fn'', ''fo'', ''fp'', ''ga'', ''gb'', ''gc'', ''gd'',
     ''ge'', ''gf'', ''gg'', ''gh'', ''gi'', ''gj'', ''gk'', ''gl'', ''gm'', ''gn'',
     ''go'', ''gp'', ''ha'', ''hb'', ''hc'', ''hd'', ''he'', ''hf'', ''hg'', ''hh'',
     ''hi'', ''hj'', ''hk'', ''hl'', ''hm'', ''hn'', ''ho'', ''hp'']"
    by simp
  have split: "[''aa'', ''ab'', ''ac'', ''ad'', ''ae'', ''af'', ''ag'', ''ah'', ''ai'', ''aj'',
     ''ak'', ''al'', ''am'', ''an'', ''ao'', ''ap'', ''ba'', ''bb'', ''bc'', ''bd'',
     ''be'', ''bf'', ''bg'', ''bh'', ''bi'', ''bj'', ''bk'', ''bl'', ''bm'', ''bn'',
     ''bo'', ''bp'', ''ca'', ''cb'', ''cc'', ''cd'', ''ce'', ''cf'', ''cg'', ''ch'',
     ''ci'', ''cj'', ''ck'', ''cl'', ''cm'', ''cn'', ''co'', ''cp'', ''da'', ''db'',
     ''dc'', ''dd'', ''de'', ''df'', ''dg'', ''dh'', ''di'', ''dj'', ''dk'', ''dl'',
     ''dm'', ''dn'', ''do'', ''dp'', ''ea'', ''eb'', ''ec'', ''ed'', ''ee'', ''ef'',
     ''eg'', ''eh'', ''ei'', ''ej'', ''ek'', ''el'', ''em'', ''en'', ''eo'', ''ep'',
     ''fa'', ''fb'', ''fc'', ''fd'', ''fe'', ''ff'', ''fg'', ''fh'', ''fi'', ''fj'',
     ''fk'', ''fl'', ''fm'', ''fn'', ''fo'', ''fp'', ''ga'', ''gb'', ''gc'', ''gd'',
     ''ge'', ''gf'', ''gg'', ''gh'', ''gi'', ''gj'', ''gk'', ''gl'', ''gm'', ''gn'',
     ''go'', ''gp'', ''ha'', ''hb'', ''hc'', ''hd'', ''he'', ''hf'', ''hg'', ''hh'',
     ''hi'', ''hj'', ''hk'', ''hl'', ''hm'', ''hn'', ''ho'', ''hp'', ''ia''] =
    [''aa'', ''ab'', ''ac'', ''ad'', ''ae'', ''af'', ''ag'', ''ah'', ''ai'', ''aj'',
     ''ak'', ''al'', ''am'', ''an'', ''ao'', ''ap'', ''ba'', ''bb'', ''bc'', ''bd'',
     ''be'', ''bf'', ''bg'', ''bh'', ''bi'', ''bj'', ''bk'', ''bl'', ''bm'', ''bn'',
     ''bo'', ''bp'', ''ca'', ''cb'', ''cc'', ''cd'', ''ce'', ''cf'', ''cg'', ''ch'',
     ''ci'', ''cj'', ''ck'', ''cl'', ''cm'', ''cn'', ''co'', ''cp'', ''da'', ''db'',
     ''dc'', ''dd'', ''de'', ''df'', ''dg'', ''dh'', ''di'', ''dj'', ''dk'', ''dl'',
     ''dm'', ''dn'', ''do'', ''dp'', ''ea'', ''eb'', ''ec'', ''ed'', ''ee'', ''ef'',
     ''eg'', ''eh'', ''ei'', ''ej'', ''ek'', ''el'', ''em'', ''en'', ''eo'', ''ep'',
     ''fa'', ''fb'', ''fc'', ''fd'', ''fe'', ''ff'', ''fg'', ''fh'', ''fi'', ''fj'',
     ''fk'', ''fl'', ''fm'', ''fn'', ''fo'', ''fp'', ''ga'', ''gb'', ''gc'', ''gd'',
     ''ge'', ''gf'', ''gg'', ''gh'', ''gi'', ''gj'', ''gk'', ''gl'', ''gm'', ''gn'',
     ''go'', ''gp'', ''ha'', ''hb'', ''hc'', ''hd'', ''he'', ''hf'', ''hg'', ''hh'',
     ''hi'', ''hj'', ''hk'', ''hl'', ''hm'', ''hn'', ''ho'', ''hp''] @ [''ia'']"
    by simp
  show ?thesis
    unfolding split
    by (rule wc_run_table_overflow) (simp_all only: d, simp_all)
qed

section \<open>The order of the report (C4)\<close>

text \<open>
  C4. Every table that calls of \<^verbatim>\<open>wc_new_word_callback\<close> build from the empty one, and so every
  report \<^verbatim>\<open>wc_print_words\<close> prints of it, is in the order of descending count, words of equal
  count in ascending lexicographic order; \<^verbatim>\<open>wc_print_words\<close> prints the slots in use in
  the order of the table. In particular a table that holds a:3, b:3 and c:5 is exactly
  [(c,5), (a,3), (b,3)].
\<close>

theorem report_order:
  assumes "len ctxt0 = 0" and "wc_run ctxt0 bufs = Inr ctxt"
  shows "sorted_wrt (\<lambda>a b. freq b < freq a \<or> (freq a = freq b \<and> word a < word b))
           (entries ctxt) \<and>
         wc_print_words ctxt =
           Inr (''\<newline>Current word frequency count: \<newline>'' @
                concat (map printf_entry (entries ctxt)) @
                ''----------------------------- \<newline>'') \<and>
         (set (entries ctxt) =
            {\<lparr>word = ''a'', freq = 3\<rparr>, \<lparr>word = ''b'', freq = 3\<rparr>, \<lparr>word = ''c'', freq = 5\<rparr>} \<longrightarrow>
          entries ctxt =
            [\<lparr>word = ''c'', freq = 5\<rparr>, \<lparr>word = ''a'', freq = 3\<rparr>, \<lparr>word = ''b'', freq = 3\<rparr>])"
proof -
  note facts = wc_run_from_empty [OF assms]
  from facts(1) have dist: "distinct (map word (entries ctxt))" by (simp add: tally_def)
  have order: "sorted_wrt (\<lambda>a b. freq b < freq a \<or> (freq a = freq b \<and> word a < word b))
           (entries ctxt)"
    by (rule sorted_strict [OF facts(2) dist])
  have print: "wc_print_words ctxt =
           Inr (''\<newline>Current word frequency count: \<newline>'' @
                concat (map printf_entry (entries ctxt)) @
                ''----------------------------- \<newline>'')"
    by (simp add: wc_print_words_eq [OF facts(3)])
  have example: "entries ctxt =
            [\<lparr>word = ''c'', freq = 5\<rparr>, \<lparr>word = ''a'', freq = 3\<rparr>, \<lparr>word = ''b'', freq = 3\<rparr>]"
    if s: "set (entries ctxt) =
            {\<lparr>word = ''a'', freq = 3\<rparr>, \<lparr>word = ''b'', freq = 3\<rparr>, \<lparr>word = ''c'', freq = 5\<rparr>}"
  proof (rule sorted_wrt_unique [where R = compar_le])
    show "sorted_wrt compar_le (entries ctxt)" by (rule facts(2))
    show "sorted_wrt compar_le
        [\<lparr>word = ''c'', freq = 5\<rparr>, \<lparr>word = ''a'', freq = 3\<rparr>, \<lparr>word = ''b'', freq = 3\<rparr>]"
      by (simp add: compar_le_iff)
    from dist have "distinct (entries ctxt)" by (simp add: distinct_map)
    moreover have "distinct
        [\<lparr>word = ''c'', freq = 5\<rparr>, \<lparr>word = ''a'', freq = 3\<rparr>, \<lparr>word = ''b'', freq = 3\<rparr>]"
      by simp
    moreover from s have "set (entries ctxt) = set
        [\<lparr>word = ''c'', freq = 5\<rparr>, \<lparr>word = ''a'', freq = 3\<rparr>, \<lparr>word = ''b'', freq = 3\<rparr>]"
      by auto
    ultimately show "mset (entries ctxt) = mset
        [\<lparr>word = ''c'', freq = 5\<rparr>, \<lparr>word = ''a'', freq = 3\<rparr>, \<lparr>word = ''b'', freq = 3\<rparr>]"
      by (simp only: set_eq_iff_mset_eq_distinct)
    fix a b assume "compar_le a b" "compar_le b a"
    then show "a = b" using compar_le_antisym [of a b] by simp
  qed
  from order print example show ?thesis by blast
qed


theorem report_order_witness:
  "wc_run zeroed_ctxt
     [''a'', ''b'', ''c'', ''a'', ''c'', ''c'', ''b'', ''a'', ''b'', ''c'', ''c''] =
     Inr \<lparr>words = [\<lparr>word = ''c'', freq = 5\<rparr>, \<lparr>word = ''a'', freq = 3\<rparr>,
                   \<lparr>word = ''b'', freq = 3\<rparr>] @ replicate 125 \<lparr>word = [], freq = 0\<rparr>,
          len = 3\<rparr> \<and>
   sorted_wrt (\<lambda>a b. freq b < freq a \<or> (freq a = freq b \<and> word a < word b))
     [\<lparr>word = ''c'', freq = 5\<rparr>, \<lparr>word = ''a'', freq = 3\<rparr>, \<lparr>word = ''b'', freq = 3\<rparr>] \<and>
   wc_print_words
     \<lparr>words = [\<lparr>word = ''c'', freq = 5\<rparr>, \<lparr>word = ''a'', freq = 3\<rparr>,
               \<lparr>word = ''b'', freq = 3\<rparr>] @ replicate 125 \<lparr>word = [], freq = 0\<rparr>,
      len = 3\<rparr> =
     Inr ''\<newline>Current word frequency count: \<newline>c - 5 \<newline>a - 3 \<newline>b - 3 \<newline>----------------------------- \<newline>''"
proof -
  let ?ctxt = "\<lparr>words = [\<lparr>word = ''c'', freq = 5\<rparr>, \<lparr>word = ''a'', freq = 3\<rparr>,
                   \<lparr>word = ''b'', freq = 3\<rparr>] @ replicate 125 \<lparr>word = [], freq = 0\<rparr>,
          len = 3\<rparr>"
  have h1: "len zeroed_ctxt = 0" by (simp add: zeroed_ctxt_def)
  have h2: "wc_run zeroed_ctxt
     [''a'', ''b'', ''c'', ''a'', ''c'', ''c'', ''b'', ''a'', ''b'', ''c'', ''c''] = Inr ?ctxt"
    by code_simp
  have e: "entries ?ctxt =
      [\<lparr>word = ''c'', freq = 5\<rparr>, \<lparr>word = ''a'', freq = 3\<rparr>, \<lparr>word = ''b'', freq = 3\<rparr>]"
    by (simp add: entries_def)
  have p: "concat (map printf_entry
      [\<lparr>word = ''c'', freq = 5\<rparr>, \<lparr>word = ''a'', freq = 3\<rparr>, \<lparr>word = ''b'', freq = 3\<rparr>]) =
      ''c - 5 \<newline>a - 3 \<newline>b - 3 \<newline>''"
    by code_simp
  from report_order [OF h1 h2] h2 show ?thesis
    unfolding e p by simp
qed

section \<open>The word at the end of the stream (C3)\<close>

text \<open>
  C3 says that a stream ending in an alphabetic character has its pending word emitted
  and counted when the stream ends, so that the stream "abc" yields the word "abc". The
  code at that input: \<^verbatim>\<open>wc_read_fd\<close> leaves its loop at the end of the stream and returns; the
  callback is never called, whatever it is, and the context is unchanged. The same word
  followed by a space is handed over.
\<close>

theorem trailing_word_dropped:
  "wc_read_fd ''abc'' callback ctxt = Inr (ctxt, []) \<and>
   wc_read_fd ''abc'' note_word [] = Inr ([], []) \<and>
   wc_read_fd ''abc '' note_word [] = Inr ([''abc''], [])"
proof -
  have "wc_read_fd ''abc '' note_word [] = Inr ([''abc''], [])"
    by code_simp
  then show ?thesis by (simp add: wc_read_fd_abc)
qed

section \<open>Two sources (C5)\<close>

text \<open>
  C5 says that the sources "the cat sat" and "the dog sat" give the final report
  [(sat,2), (the,2), (cat,1), (dog,1)]. The code at that input: each reader hands over
  only its first two words, since "sat" is followed by the end of the stream; with the
  first reader running before the second, the table ends as [(the,2), (cat,1), (dog,1)]
  and the final report has no line for "sat".
\<close>

theorem two_sources_report:
  "wc_read_fd ''the cat sat'' note_word [] = Inr ([''the'', ''cat''], []) \<and>
   wc_read_fd ''the dog sat'' note_word [] = Inr ([''the'', ''dog''], []) \<and>
   wc_read_fd ''the cat sat'' wc_new_word_callback zeroed_ctxt =
     Inr (\<lparr>words = [\<lparr>word = ''cat'', freq = 1\<rparr>, \<lparr>word = ''the'', freq = 1\<rparr>] @
                   replicate 126 \<lparr>word = [], freq = 0\<rparr>, len = 2\<rparr>, []) \<and>
   wc_read_fd ''the dog sat'' wc_new_word_callback
     \<lparr>words = [\<lparr>word = ''cat'', freq = 1\<rparr>, \<lparr>word = ''the'', freq = 1\<rparr>] @
              replicate 126 \<lparr>word = [], freq = 0\<rparr>, len = 2\<rparr> =
     Inr (\<lparr>words = [\<lparr>word = ''the'', freq = 2\<rparr>, \<lparr>word = ''cat'', freq = 1\<rparr>,
                    \<lparr>word = ''dog'', freq = 1\<rparr>] @
                   replicate 125 \<lparr>word = [], freq = 0\<rparr>, len = 3\<rparr>, []) \<and>
   wc_print_words
     \<lparr>words = [\<lparr>word = ''the'', freq = 2\<rparr>, \<lparr>word = ''cat'', freq = 1\<rparr>,
               \<lparr>word = ''dog'', freq = 1\<rparr>] @
              replicate 125 \<lparr>word = [], freq = 0\<rparr>, len = 3\<rparr> =
     Inr ''\<newline>Current word frequency count: \<newline>the - 2 \<newline>cat - 1 \<newline>dog - 1 \<newline>----------------------------- \<newline>''"
  by code_simp

section \<open>A full table (C6)\<close>

text \<open>
  C6 says that recording a new word into a table that already holds its maximum number
  of distinct words is harmless and never writes past the entry array. The code at such
  a table, 128 slots all in use and a word that has no slot: \<^verbatim>\<open>wc_store_word\<close>, and with it
  \<^verbatim>\<open>wc_new_word_callback\<close>, writes \<^verbatim>\<open>words[128]\<close>.
\<close>

theorem full_table_overflow:
  assumes "length (words ctxt) = 128" and "len ctxt = 128"
    and "buf \<notin> word ` set (entries ctxt)"
  shows "wc_store_word ctxt buf = Inl Table_overflow \<and>
         wc_new_word_callback buf ctxt = Inl Table_overflow"
proof -
  from assms(1,2) have "well_formed ctxt" by (simp add: well_formed_def)
  from wc_store_word_new [OF this assms(3)] assms(1,2)
  have "wc_store_word ctxt buf = Inl Table_overflow" by simp
  then show ?thesis by (simp add: wc_new_word_callback_def)
qed

text \<open>The table of 128 two-letter words, each recorded once, and the new word "ia".\<close>

theorem full_table_overflow_witness:
  "wc_new_word_callback ''ia''
     \<lparr>words = map (\<lambda>w. \<lparr>word = w, freq = 1\<rparr>)
         [''aa'', ''ab'', ''ac'', ''ad'', ''ae'', ''af'', ''ag'', ''ah'', ''ai'',
          ''aj'', ''ak'', ''al'', ''am'', ''an'', ''ao'', ''ap'', ''ba'', ''bb'',
          ''bc'', ''bd'', ''be'', ''bf'', ''bg'', ''bh'', ''bi'', ''bj'', ''bk'',
          ''bl'', ''bm'', ''bn'', ''bo'', ''bp'', ''ca'', ''cb'', ''cc'', ''cd'',
          ''ce'', ''cf'', ''cg'', ''ch'', ''ci'', ''cj'', ''ck'', ''cl'', ''cm'',
          ''cn'', ''co'', ''cp'', ''da'', ''db'', ''dc'', ''dd'', ''de'', ''df'',
          ''dg'', ''dh'', ''di'', ''dj'', ''dk'', ''dl'', ''dm'', ''dn'', ''do'',
          ''dp'', ''ea'', ''eb'', ''ec'', ''ed'', ''ee'', ''ef'', ''eg'', ''eh'',
          ''ei'', ''ej'', ''ek'', ''el'', ''em'', ''en'', ''eo'', ''ep'', ''fa'',
          ''fb'', ''fc'', ''fd'', ''fe'', ''ff'', ''fg'', ''fh'', ''fi'', ''fj'',
          ''fk'', ''fl'', ''fm'', ''fn'', ''fo'', ''fp'', ''ga'', ''gb'', ''gc'',
          ''gd'', ''ge'', ''gf'', ''gg'', ''gh'', ''gi'', ''gj'', ''gk'', ''gl'',
          ''gm'', ''gn'', ''go'', ''gp'', ''ha'', ''hb'', ''hc'', ''hd'', ''he'',
          ''hf'', ''hg'', ''hh'', ''hi'', ''hj'', ''hk'', ''hl'', ''hm'', ''hn'',
          ''ho'', ''hp''],
      len = 128\<rparr> = Inl Table_overflow"
proof -
  let ?ws = "[''aa'', ''ab'', ''ac'', ''ad'', ''ae'', ''af'', ''ag'', ''ah'', ''ai'',
          ''aj'', ''ak'', ''al'', ''am'', ''an'', ''ao'', ''ap'', ''ba'', ''bb'',
          ''bc'', ''bd'', ''be'', ''bf'', ''bg'', ''bh'', ''bi'', ''bj'', ''bk'',
          ''bl'', ''bm'', ''bn'', ''bo'', ''bp'', ''ca'', ''cb'', ''cc'', ''cd'',
          ''ce'', ''cf'', ''cg'', ''ch'', ''ci'', ''cj'', ''ck'', ''cl'', ''cm'',
          ''cn'', ''co'', ''cp'', ''da'', ''db'', ''dc'', ''dd'', ''de'', ''df'',
          ''dg'', ''dh'', ''di'', ''dj'', ''dk'', ''dl'', ''dm'', ''dn'', ''do'',
          ''dp'', ''ea'', ''eb'', ''ec'', ''ed'', ''ee'', ''ef'', ''eg'', ''eh'',
          ''ei'', ''ej'', ''ek'', ''el'', ''em'', ''en'', ''eo'', ''ep'', ''fa'',
          ''fb'', ''fc'', ''fd'', ''fe'', ''ff'', ''fg'', ''fh'', ''fi'', ''fj'',
          ''fk'', ''fl'', ''fm'', ''fn'', ''fo'', ''fp'', ''ga'', ''gb'', ''gc'',
          ''gd'', ''ge'', ''gf'', ''gg'', ''gh'', ''gi'', ''gj'', ''gk'', ''gl'',
          ''gm'', ''gn'', ''go'', ''gp'', ''ha'', ''hb'', ''hc'', ''hd'', ''he'',
          ''hf'', ''hg'', ''hh'', ''hi'', ''hj'', ''hk'', ''hl'', ''hm'', ''hn'',
          ''ho'', ''hp'']"
  let ?ctxt = "\<lparr>words = map (\<lambda>w. \<lparr>word = w, freq = 1\<rparr>) ?ws, len = 128\<rparr>"
  have h1: "length (words ?ctxt) = 128" by simp
  have h2: "len ?ctxt = 128" by simp
  have "word ` set (entries ?ctxt) = set ?ws"
    unfolding entries_def by (simp only: wc_Context.simps take_all [OF eq_refl [OF h1 [simplified wc_Context.simps]]] set_map image_image wc_Word.simps image_ident)
  then have h3: "''ia'' \<notin> word ` set (entries ?ctxt)" by simp
  from full_table_overflow [OF h1 h2 h3] show ?thesis by simp
qed

section \<open>A long alphabetic run (C7)\<close>

text \<open>
  C7 says that the reader truncates or rejects an alphabetic run longer than 127
  characters and never writes past its buffer. The code on a stream that starts with 128
  alphabetic bytes followed by one more byte (other than 0xFF, which ends the reading):
  the 129th byte makes \<^verbatim>\<open>wc_read_fd\<close> write \<^verbatim>\<open>buf[128]\<close>, the terminating NUL if that byte is
  not alphabetic and the letter itself if it is.
\<close>

theorem long_run_overflow:
  assumes "length run = 128" and "\<forall>c\<in>set run. isalpha (unsigned_char c)" and "b \<noteq> CHR 0xFF"
  shows "wc_read_fd (run @ b # rest) callback ctxt = Inl Buffer_overflow"
  unfolding wc_read_fd_def
proof (rule wc_read_loop_overflow)
  from assms(1) show "WC_OUT_OF_WORD = WC_IN_WORD \<or> WC_OUT_OF_WORD = WC_OUT_OF_WORD \<and> run \<noteq> []"
    by auto
qed (use assms in simp_all)

text \<open>128 letters "a" and a newline.\<close>

theorem long_run_overflow_witness:
  "wc_read_fd (replicate 128 CHR ''a'' @ ''\<newline>'') wc_new_word_callback zeroed_ctxt =
     Inl Buffer_overflow"
proof -
  have h1: "length (replicate 128 CHR ''a'') = 128" by simp
  have h2: "\<forall>c\<in>set (replicate 128 CHR ''a''). isalpha (unsigned_char c)"
    by (simp add: isalpha_def unsigned_char_def)
  have h3: "CHR 0x0A \<noteq> CHR 0xFF" by simp
  from long_run_overflow [OF h1 h2 h3, of "[]" wc_new_word_callback zeroed_ctxt]
  show ?thesis by simp
qed

section \<open>Too many sources (C8)\<close>

text \<open>
  C8 says that an invocation with more than 9 named sources reports a configuration
  error and exits non-zero before any task is spawned. The code for \<^verbatim>\<open>argc > 10\<close>, that is
  10 or more named sources, when every source opens and every thread starts: \<^verbatim>\<open>main\<close>
  creates the reader of standard input and the readers of the first nine named sources,
  and then writes \<^verbatim>\<open>tctxt[10]\<close>, past the arrays; it reports nothing and does not exit.
\<close>

theorem too_many_sources:
  assumes "10 < argc" and "\<forall>k. fopen_ok env k \<and> create_read_ok env k"
  shows "main env argc = (map Create_read [0..<10], Undefined Thread_overflow)"
  using assms by (rule main_many)

text \<open>Ten named sources: \<^verbatim>\<open>argc = 11\<close>.\<close>

theorem too_many_sources_witness:
  "main \<lparr>fopen_ok = (\<lambda>k. True), create_read_ok = (\<lambda>k. True), create_print_ok = True,
         join_read_ok = (\<lambda>k. True), cancel_ok = True, join_print_ok = True\<rparr> 11 =
   ([Create_read 0, Create_read 1, Create_read 2, Create_read 3, Create_read 4,
     Create_read 5, Create_read 6, Create_read 7, Create_read 8, Create_read 9],
    Undefined Thread_overflow)"
proof -
  let ?env = "\<lparr>fopen_ok = (\<lambda>k. True), create_read_ok = (\<lambda>k. True), create_print_ok = True,
         join_read_ok = (\<lambda>k. True), cancel_ok = True, join_print_ok = True\<rparr>"
  have h1: "(10 :: nat) < 11" by simp
  have h2: "\<forall>k. fopen_ok ?env k \<and> create_read_ok ?env k" by simp
  have "map Create_read [0..<10] =
    [Create_read 0, Create_read 1, Create_read 2, Create_read 3, Create_read 4,
     Create_read 5, Create_read 6, Create_read 7, Create_read 8, Create_read 9]"
    by code_simp
  with too_many_sources [OF h1 h2] show ?thesis by simp
qed

section \<open>The printed block (C9)\<close>

text \<open>
  C9, as amended. The report \<^verbatim>\<open>wc_print_words\<close> writes for a table built from the empty one
  by recording words without a newline is a block of lines: an empty line, the header
  line "Current word frequency count: ", then exactly one line per table entry, in the
  order of the table, which is the sorted order, of the form "<word> - <count> " with a
  space after the count, then the separator line "----------------------------- ".
\<close>

theorem report_block:
  assumes "len ctxt0 = 0" and "wc_run ctxt0 bufs = Inr ctxt"
    and "\<forall>buf\<in>set bufs. CHR 0x0A \<notin> set buf"
  shows "\<exists>out. wc_print_words ctxt = Inr out \<and>
     lines_of out =
       [[], ''Current word frequency count: ''] @
       map (\<lambda>e. word e @ '' - '' @ printf_d (freq e) @ '' '') (entries ctxt) @
       [''----------------------------- ''] \<and>
     sorted_wrt (\<lambda>a b. freq b < freq a \<or> (freq a = freq b \<and> word a < word b))
       (entries ctxt)"
proof -
  note facts = wc_run_from_empty [OF assms(1,2)]
  let ?line = "\<lambda>e. word e @ '' - '' @ printf_d (freq e) @ '' ''"
  let ?out = "''\<newline>Current word frequency count: \<newline>'' @
                concat (map printf_entry (entries ctxt)) @
                ''----------------------------- \<newline>''"
  from facts(1) have dist: "distinct (map word (entries ctxt))"
    and names: "word ` set (entries ctxt) = set bufs" by (simp_all add: tally_def)
  have print: "wc_print_words ctxt = Inr ?out"
    by (simp add: wc_print_words_eq [OF facts(3)])
  have "CHR 0x0A \<notin> set (?line e)" if "e \<in> set (entries ctxt)" for e
  proof -
    from that names have "word e \<in> set bufs" by auto
    with assms(3) have "CHR 0x0A \<notin> set (word e)" by simp
    then show ?thesis by (simp add: printf_d_no_newline)
  qed
  then have clean: "\<forall>l\<in>set (map ?line (entries ctxt)). CHR 0x0A \<notin> set l" by auto
  have entry: "printf_entry = (\<lambda>e. ?line e @ [CHR 0x0A])"
    by (rule ext) (simp add: printf_entry_def)
  have body: "concat (map printf_entry (entries ctxt)) =
      concat (map (\<lambda>l. l @ [CHR 0x0A]) (map ?line (entries ctxt)))"
    unfolding entry by (simp add: comp_def)
  have tail: "lines_of ''----------------------------- \<newline>'' = [''----------------------------- '']"
    by simp
  have head: "lines_of (''\<newline>Current word frequency count: \<newline>'' @ rest) =
      [[], ''Current word frequency count: ''] @ lines_of rest" for rest
    using lines_of_line [of "''Current word frequency count: ''" rest] by simp
  have "lines_of ?out = [[], ''Current word frequency count: ''] @
       map ?line (entries ctxt) @ [''----------------------------- '']"
    unfolding head body lines_of_lines [OF clean] tail by simp
  moreover have "sorted_wrt (\<lambda>a b. freq b < freq a \<or> (freq a = freq b \<and> word a < word b))
       (entries ctxt)"
    by (rule sorted_strict [OF facts(2) dist])
  ultimately show ?thesis using print by blast
qed

text \<open>The table after recording "the", "cat", "the".\<close>

theorem report_block_witness:
  "\<exists>out. wc_print_words
       \<lparr>words = [\<lparr>word = ''the'', freq = 2\<rparr>, \<lparr>word = ''cat'', freq = 1\<rparr>] @
                replicate 126 \<lparr>word = [], freq = 0\<rparr>, len = 2\<rparr> = Inr out \<and>
     lines_of out =
       [[], ''Current word frequency count: '', ''the - 2 '', ''cat - 1 '',
        ''----------------------------- '']"
proof -
  let ?ctxt = "\<lparr>words = [\<lparr>word = ''the'', freq = 2\<rparr>, \<lparr>word = ''cat'', freq = 1\<rparr>] @
                replicate 126 \<lparr>word = [], freq = 0\<rparr>, len = 2\<rparr>"
  have h1: "len zeroed_ctxt = 0" by (simp add: zeroed_ctxt_def)
  have h2: "wc_run zeroed_ctxt [''the'', ''cat'', ''the''] = Inr ?ctxt" by code_simp
  have h3: "\<forall>buf\<in>set [''the'', ''cat'', ''the'']. CHR 0x0A \<notin> set buf" by simp
  have e: "map (\<lambda>e. word e @ '' - '' @ printf_d (freq e) @ '' '') (entries ?ctxt) =
      [''the - 2 '', ''cat - 1 '']"
    by code_simp
  from report_block [OF h1 h2 h3] show ?thesis
    unfolding e by auto
qed

text \<open>
  C9 as stated fails: in the report of the table that holds "a" once, the line of the
  entry is "a - 1 ", which ends in a space; no line of the report is "a - 1".
\<close>

theorem report_line_counterexample:
  "wc_run zeroed_ctxt [''a''] =
     Inr \<lparr>words = \<lparr>word = ''a'', freq = 1\<rparr> # replicate 127 \<lparr>word = [], freq = 0\<rparr>, len = 1\<rparr> \<and>
   wc_print_words
     \<lparr>words = \<lparr>word = ''a'', freq = 1\<rparr> # replicate 127 \<lparr>word = [], freq = 0\<rparr>, len = 1\<rparr> =
     Inr ''\<newline>Current word frequency count: \<newline>a - 1 \<newline>----------------------------- \<newline>'' \<and>
   lines_of ''\<newline>Current word frequency count: \<newline>a - 1 \<newline>----------------------------- \<newline>'' =
     [[], ''Current word frequency count: '', ''a - 1 '', ''----------------------------- ''] \<and>
   ''a - 1'' \<notin> set (lines_of
     ''\<newline>Current word frequency count: \<newline>a - 1 \<newline>----------------------------- \<newline>'')"
  by code_simp

section \<open>The byte 0xFF (C10)\<close>

text \<open>
  C10. On a stream whose first byte 0xFF comes after the bytes \<open>pre\<close>, \<^verbatim>\<open>wc_read_fd\<close> does to
  the context exactly what it does on the stream \<open>pre\<close> alone, which ends there, and leaves
  all the bytes \<open>post\<close> after the 0xFF unread: stored into the plain \<^verbatim>\<open>char c\<close>, the byte
  compares equal to \<^verbatim>\<open>EOF\<close>.
\<close>

theorem reader_stops_at_0xFF:
  assumes "CHR 0xFF \<notin> set pre"
  shows "wc_read_fd (pre @ CHR 0xFF # post) callback ctxt =
         map_sum id (\<lambda>(ctxt', rest). (ctxt', post)) (wc_read_fd pre callback ctxt)"
  unfolding wc_read_fd_def using assms by (rule wc_read_loop_stops)

text \<open>The stream "ab ", 0xFF, "cd ": only "ab" is handed over, and "cd " is left unread.\<close>

theorem reader_stops_at_0xFF_witness:
  "wc_read_fd (''ab '' @ CHR 0xFF # ''cd '') note_word [] = Inr ([''ab''], ''cd '')"
proof -
  have h: "CHR 0xFF \<notin> set ''ab ''" by simp
  have "wc_read_fd ''ab '' note_word [] = Inr ([''ab''], [])" by code_simp
  with reader_stops_at_0xFF [OF h, of "''cd ''" note_word "[]"] show ?thesis by simp
qed

end
